theory Spec2Isabelle
  imports Complex_Main "HOL-Library.Char_ord" "HOL-Library.List_Lexorder"
begin

section \<open>Strings and characters of the Python runtime\<close>

text \<open>
  A Python \<open>str\<close> is modelled as a \<open>string\<close> (a list of 8-bit characters); the
  development covers ASCII text.  The character classes below are the ones of Python 3
  on code points below 128: \<open>str.isspace\<close> and the regular-expression class \<open>\s\<close>
  agree there (tab, line feed, vertical tab, form feed, carriage return, the four
  separators \<open>0x1c\<close> to \<open>0x1f\<close> and the blank), \<open>\d\<close> is \<open>0-9\<close> and \<open>\w\<close> is
  \<open>[A-Za-z0-9_]\<close>.
\<close>

definition ws_chars :: "char list" where
  "ws_chars = [CHR 0x09, CHR 0x0A, CHR 0x0B, CHR 0x0C, CHR 0x0D,
               CHR 0x1C, CHR 0x1D, CHR 0x1E, CHR 0x1F, CHR 0x20]"

definition is_space :: "char \<Rightarrow> bool" where
  "is_space c = (c \<in> set ws_chars)"

definition is_digit :: "char \<Rightarrow> bool" where
  "is_digit c = (CHR ''0'' \<le> c \<and> c \<le> CHR ''9'')"

definition is_upper :: "char \<Rightarrow> bool" where
  "is_upper c = (CHR ''A'' \<le> c \<and> c \<le> CHR ''Z'')"

definition is_lower :: "char \<Rightarrow> bool" where
  "is_lower c = (CHR ''a'' \<le> c \<and> c \<le> CHR ''z'')"

definition is_word :: "char \<Rightarrow> bool" where
  "is_word c = (is_digit c \<or> is_upper c \<or> is_lower c \<or> c = CHR ''_'')"

definition lower_char :: "char \<Rightarrow> char" where
  "lower_char c =
     (case map_of (zip ''ABCDEFGHIJKLMNOPQRSTUVWXYZ'' ''abcdefghijklmnopqrstuvwxyz'') c of
        None \<Rightarrow> c | Some l \<Rightarrow> l)"

definition upper_char :: "char \<Rightarrow> char" where
  "upper_char c =
     (case map_of (zip ''abcdefghijklmnopqrstuvwxyz'' ''ABCDEFGHIJKLMNOPQRSTUVWXYZ'') c of
        None \<Rightarrow> c | Some u \<Rightarrow> u)"

text \<open>\<open>str.lower()\<close>.\<close>

definition lower :: "string \<Rightarrow> string" where
  "lower s = map lower_char s"

text \<open>\<open>str.strip()\<close>, \<open>str.rstrip()\<close>.\<close>

definition lstrip :: "string \<Rightarrow> string" where
  "lstrip s = dropWhile is_space s"

definition rstrip :: "string \<Rightarrow> string" where
  "rstrip s = rev (dropWhile is_space (rev s))"

definition strip :: "string \<Rightarrow> string" where
  "strip s = rstrip (lstrip s)"

text \<open>\<open>str.startswith(p)\<close>.\<close>

definition startswith :: "string \<Rightarrow> string \<Rightarrow> bool" where
  "startswith s p = (take (length p) s = p)"

text \<open>
  \<open>str.replace(old, new)\<close> for a non-empty \<open>old\<close>: the occurrences are replaced from
  left to right, without overlap.
\<close>

fun replace :: "string \<Rightarrow> string \<Rightarrow> string \<Rightarrow> string" where
  "replace old new [] = []"
| "replace old new (c # cs) =
     (if old \<noteq> [] \<and> take (length old) (c # cs) = old
      then new @ replace old new (drop (length old) (c # cs))
      else c # replace old new cs)"

text \<open>
  \<open>str.splitlines()\<close>: the text is cut at \<open>\n\<close>, \<open>\r\<close>, \<open>\r\n\<close>, vertical tab, form
  feed and the separators \<open>0x1c\<close>, \<open>0x1d\<close>, \<open>0x1e\<close>; a final line break opens no
  empty last line.
\<close>

definition is_linebreak :: "char \<Rightarrow> bool" where
  "is_linebreak c = (c \<in> set [CHR 0x0A, CHR 0x0B, CHR 0x0C, CHR 0x0D, CHR 0x1C, CHR 0x1D, CHR 0x1E])"

fun splitlines_acc :: "string \<Rightarrow> string \<Rightarrow> string list" where
  "splitlines_acc acc [] = (if acc = [] then [] else [rev acc])"
| "splitlines_acc acc (c # cs) =
     (if is_linebreak c
      then rev acc # splitlines_acc []
             (if c = CHR 0x0D \<and> cs \<noteq> [] \<and> hd cs = CHR 0x0A then tl cs else cs)
      else splitlines_acc (c # acc) cs)"

definition splitlines :: "string \<Rightarrow> string list" where
  "splitlines s = splitlines_acc [] s"

section \<open>Regular expressions\<close>

text \<open>
  The patterns of the source are kept as syntax trees and run by one backtracking
  matcher.  \<open>rmatch r ic ml s st\<close> lists, in the order in which Python's engine tries
  them, the states in which \<open>r\<close> can stop when it starts in state \<open>st\<close> of the subject
  \<open>s\<close>; a state is the position reached and the groups captured so far.  The head of the
  list is the match Python reports.  \<open>ic\<close> is the flag \<open>re.I\<close>, \<open>ml\<close> the flag \<open>re.M\<close>.
  \<open>Rep lo hi r\<close> is the greedy repetition \<open>r{lo,hi}\<close> (\<open>hi = None\<close>: unbounded); an
  optional iteration that consumes nothing ends the repetition, as in Python.
\<close>

datatype citem = CChar char | CRange char char | CDigit | CSpace

datatype regex =
    Ch char
  | Cls "citem list"
  | NCls "citem list"
  | Dot
  | Eps
  | Bol
  | Eol
  | WordB
  | Seq regex regex
  | Alt regex regex
  | Rep nat "nat option" regex
  | Grp nat regex

type_synonym groups = "(nat \<times> nat \<times> nat) list"
type_synonym mstate = "nat \<times> groups"

fun item_has :: "citem \<Rightarrow> char \<Rightarrow> bool" where
  "item_has (CChar d) c = (c = d)"
| "item_has (CRange a b) c = (a \<le> c \<and> c \<le> b)"
| "item_has CDigit c = is_digit c"
| "item_has CSpace c = is_space c"

definition cls_has :: "bool \<Rightarrow> citem list \<Rightarrow> char \<Rightarrow> bool" where
  "cls_has ic its c =
     (\<exists>it \<in> set its. item_has it c \<or> (ic \<and> (item_has it (lower_char c) \<or> item_has it (upper_char c))))"

definition ch_eq :: "bool \<Rightarrow> char \<Rightarrow> char \<Rightarrow> bool" where
  "ch_eq ic d c = (c = d \<or> (ic \<and> lower_char c = lower_char d))"

definition step_if :: "string \<Rightarrow> (char \<Rightarrow> bool) \<Rightarrow> mstate \<Rightarrow> mstate list" where
  "step_if s p st = (if fst st < length s \<and> p (s ! fst st) then [(Suc (fst st), snd st)] else [])"

definition test_if :: "bool \<Rightarrow> mstate \<Rightarrow> mstate list" where
  "test_if b st = (if b then [st] else [])"

definition at_bol :: "bool \<Rightarrow> string \<Rightarrow> nat \<Rightarrow> bool" where
  "at_bol ml s i = (i = 0 \<or> (ml \<and> i \<le> length s \<and> s ! (i - 1) = CHR 0x0A))"

definition at_eol :: "bool \<Rightarrow> string \<Rightarrow> nat \<Rightarrow> bool" where
  "at_eol ml s i =
     (i = length s \<or> (i < length s \<and> s ! i = CHR 0x0A \<and> (ml \<or> Suc i = length s)))"

definition at_wordb :: "string \<Rightarrow> nat \<Rightarrow> bool" where
  "at_wordb s i =
     ((0 < i \<and> i \<le> length s \<and> is_word (s ! (i - 1))) \<noteq> (i < length s \<and> is_word (s ! i)))"

fun rep_min :: "(mstate \<Rightarrow> mstate list) \<Rightarrow> nat \<Rightarrow> (mstate \<Rightarrow> mstate list) \<Rightarrow> mstate \<Rightarrow> mstate list" where
  "rep_min m 0 k st = k st"
| "rep_min m (Suc n) k st = concat (map (rep_min m n k) (m st))"

fun rep_greedy :: "(mstate \<Rightarrow> mstate list) \<Rightarrow> nat \<Rightarrow> nat option \<Rightarrow> mstate \<Rightarrow> mstate list" where
  "rep_greedy m 0 hi st = [st]"
| "rep_greedy m (Suc fuel) hi st =
     (if hi = Some 0 then [st]
      else concat (map (rep_greedy m fuel (map_option (\<lambda>h. h - 1) hi))
                       (filter (\<lambda>st'. fst st < fst st') (m st))) @ [st])"

primrec rmatch :: "regex \<Rightarrow> bool \<Rightarrow> bool \<Rightarrow> string \<Rightarrow> mstate \<Rightarrow> mstate list" where
  "rmatch (Ch d) ic ml s = step_if s (ch_eq ic d)"
| "rmatch (Cls its) ic ml s = step_if s (cls_has ic its)"
| "rmatch (NCls its) ic ml s = step_if s (\<lambda>c. \<not> cls_has ic its c)"
| "rmatch Dot ic ml s = step_if s (\<lambda>c. c \<noteq> CHR 0x0A)"
| "rmatch Eps ic ml s = (\<lambda>st. [st])"
| "rmatch Bol ic ml s = (\<lambda>st. test_if (at_bol ml s (fst st)) st)"
| "rmatch Eol ic ml s = (\<lambda>st. test_if (at_eol ml s (fst st)) st)"
| "rmatch WordB ic ml s = (\<lambda>st. test_if (at_wordb s (fst st)) st)"
| "rmatch (Seq a b) ic ml s = (\<lambda>st. concat (map (rmatch b ic ml s) (rmatch a ic ml s st)))"
| "rmatch (Alt a b) ic ml s = (\<lambda>st. rmatch a ic ml s st @ rmatch b ic ml s st)"
| "rmatch (Rep lo hi r) ic ml s =
     rep_min (rmatch r ic ml s) lo
       (\<lambda>st. rep_greedy (rmatch r ic ml s) (length s - fst st) (map_option (\<lambda>h. h - lo) hi) st)"
| "rmatch (Grp n r) ic ml s =
     (\<lambda>st. map (\<lambda>st'. (fst st', (n, fst st, fst st') # snd st')) (rmatch r ic ml s st))"

text \<open>
  A match object: where the match starts, where it ends, and its groups.  \<open>group0\<close> is
  \<open>m.group(0)\<close>; \<open>group\<close> is \<open>m.group(k)\<close>, which is \<open>None\<close> for a group that took no
  part in the match.
\<close>

type_synonym match_obj = "nat \<times> nat \<times> groups"

definition substr :: "string \<Rightarrow> nat \<Rightarrow> nat \<Rightarrow> string" where
  "substr s a b = take (b - a) (drop a s)"

definition group0 :: "string \<Rightarrow> match_obj \<Rightarrow> string" where
  "group0 s m = substr s (fst m) (fst (snd m))"

definition group :: "string \<Rightarrow> match_obj \<Rightarrow> nat \<Rightarrow> string option" where
  "group s m k = map_option (\<lambda>(a, b). substr s a b) (map_of (snd (snd m)) k)"

text \<open>
  \<open>first_match\<close> tries the start positions in the order given; \<open>re_search\<close> is
  \<open>pattern.search(s)\<close>, the leftmost match; \<open>re_fullmatch\<close> is \<open>re.fullmatch\<close>, the first
  way of matching from position 0 that ends at the end of the subject.
\<close>

fun first_match :: "regex \<Rightarrow> bool \<Rightarrow> bool \<Rightarrow> string \<Rightarrow> nat list \<Rightarrow> match_obj option" where
  "first_match r ic ml s [] = None"
| "first_match r ic ml s (i # is) =
     (case rmatch r ic ml s (i, []) of
        [] \<Rightarrow> first_match r ic ml s is
      | st # _ \<Rightarrow> Some (i, fst st, snd st))"

definition search_from :: "regex \<Rightarrow> bool \<Rightarrow> bool \<Rightarrow> string \<Rightarrow> nat \<Rightarrow> match_obj option" where
  "search_from r ic ml s i = first_match r ic ml s [i..<Suc (length s)]"

definition re_search :: "regex \<Rightarrow> bool \<Rightarrow> bool \<Rightarrow> string \<Rightarrow> match_obj option" where
  "re_search r ic ml s = search_from r ic ml s 0"

definition re_fullmatch :: "regex \<Rightarrow> bool \<Rightarrow> bool \<Rightarrow> string \<Rightarrow> match_obj option" where
  "re_fullmatch r ic ml s =
     (case filter (\<lambda>st. fst st = length s) (rmatch r ic ml s (0, [])) of
        [] \<Rightarrow> None
      | st # _ \<Rightarrow> Some (0, fst st, snd st))"

text \<open>
  \<open>pattern.findall(s)\<close> and \<open>re.sub(pattern, repl, s)\<close> for a replacement without
  back-references scan the subject from left to right; after an empty match the scan
  moves one character on.  Every step moves to the right, so \<open>Suc (length s)\<close> steps
  cover the subject.
\<close>

fun findall_from :: "nat \<Rightarrow> regex \<Rightarrow> bool \<Rightarrow> bool \<Rightarrow> string \<Rightarrow> nat \<Rightarrow> match_obj list" where
  "findall_from 0 r ic ml s i = []"
| "findall_from (Suc n) r ic ml s i =
     (case search_from r ic ml s i of
        None \<Rightarrow> []
      | Some m \<Rightarrow>
          m # (if fst (snd m) = fst m
               then (if fst m < length s then findall_from n r ic ml s (Suc (fst m)) else [])
               else findall_from n r ic ml s (fst (snd m))))"

definition re_findall :: "regex \<Rightarrow> bool \<Rightarrow> bool \<Rightarrow> string \<Rightarrow> match_obj list" where
  "re_findall r ic ml s = findall_from (Suc (length s)) r ic ml s 0"

fun sub_from :: "nat \<Rightarrow> regex \<Rightarrow> bool \<Rightarrow> bool \<Rightarrow> string \<Rightarrow> string \<Rightarrow> nat \<Rightarrow> string" where
  "sub_from 0 r ic ml repl s i = drop i s"
| "sub_from (Suc n) r ic ml repl s i =
     (case search_from r ic ml s i of
        None \<Rightarrow> drop i s
      | Some m \<Rightarrow>
          substr s i (fst m) @ repl @
          (if fst (snd m) = fst m
           then (if fst m < length s
                 then s ! fst m # sub_from n r ic ml repl s (Suc (fst m)) else [])
           else sub_from n r ic ml repl s (fst (snd m))))"

definition re_sub :: "regex \<Rightarrow> bool \<Rightarrow> bool \<Rightarrow> string \<Rightarrow> string \<Rightarrow> string" where
  "re_sub r ic ml repl s = sub_from (Suc (length s)) r ic ml repl s 0"

text \<open>Building blocks for writing the patterns down.\<close>

fun lit :: "string \<Rightarrow> regex" where
  "lit [] = Eps"
| "lit [c] = Ch c"
| "lit (c # cs) = Seq (Ch c) (lit cs)"

fun seqs :: "regex list \<Rightarrow> regex" where
  "seqs [] = Eps"
| "seqs [r] = r"
| "seqs (r # rs) = Seq r (seqs rs)"

fun alts :: "regex list \<Rightarrow> regex" where
  "alts [] = Eps"
| "alts [r] = r"
| "alts (r # rs) = Alt r (alts rs)"

abbreviation star :: "regex \<Rightarrow> regex" where "star r \<equiv> Rep 0 None r"
abbreviation plus :: "regex \<Rightarrow> regex" where "plus r \<equiv> Rep 1 None r"
abbreviation opt :: "regex \<Rightarrow> regex" where "opt r \<equiv> Rep 0 (Some 1) r"
abbreviation d :: regex where "d \<equiv> Cls [CDigit]"
abbreviation sp :: regex where "sp \<equiv> Cls [CSpace]"
abbreviation d09 :: regex where "d09 \<equiv> Cls [CRange (CHR ''0'') (CHR ''9'')]"
abbreviation AZ :: regex where "AZ \<equiv> Cls [CRange (CHR ''A'') (CHR ''Z'')]"

section \<open>The tables and patterns of \<open>compare_utils.py\<close>\<close>

definition FIELDS :: "string list" where
  "FIELDS = [''vendor'', ''date'', ''currency'', ''total'', ''po_number'']"

definition SYNONYMS :: "(string \<times> string list) list" where
  "SYNONYMS =
     [(''vendor'', [''vendor'', ''seller'', ''supplier'', ''from'']),
      (''date'', [''date'', ''date of issue'', ''invoice date'', ''date issued'']),
      (''currency'', [''currency'']),
      (''total'', [''total'', ''amount due'', ''amount'', ''grand total'']),
      (''po_number'', [''po'', ''po number'', ''purchase order number'', ''purchase order'',
                       ''invoice number'', ''order number''])]"

text \<open>\<^verbatim>\<open>(\b\d{1,2}[\-/]\d{1,2}[\-/]\d{2,4}\b|\b\d{4}[\-/]\d{1,2}[\-/]\d{1,2}\b)\<close>\<close>

definition date_sep :: regex where
  "date_sep = Cls [CChar (CHR ''-''), CChar (CHR ''/'')]"

definition date_re :: regex where
  "date_re =
     Grp 1 (Alt
       (seqs [WordB, Rep 1 (Some 2) d, date_sep, Rep 1 (Some 2) d, date_sep, Rep 2 (Some 4) d, WordB])
       (seqs [WordB, Rep 4 (Some 4) d, date_sep, Rep 1 (Some 2) d, date_sep, Rep 1 (Some 2) d, WordB]))"

text \<open>\<^verbatim>\<open>([A-Z]{3})?\s?\$?\s?([0-9]{1,3}(?:,[0-9]{3})*(?:\.[0-9]{2})|[0-9]+\.[0-9]{2})\<close>\<close>

definition money_re :: regex where
  "money_re =
     seqs [opt (Grp 1 (Rep 3 (Some 3) AZ)), opt sp, opt (Ch (CHR ''$'')), opt sp,
           Grp 2 (Alt
             (seqs [Rep 1 (Some 3) d09, star (Seq (Ch (CHR '','')) (Rep 3 (Some 3) d09)),
                    Seq (Ch (CHR ''.'')) (Rep 2 (Some 2) d09)])
             (seqs [plus d09, Ch (CHR ''.''), Rep 2 (Some 2) d09]))]"

text \<open>\<^verbatim>\<open>PO\s*#?\s*([A-Z0-9\-]+)\<close> with \<open>re.I\<close>\<close>

definition id_token :: regex where
  "id_token = plus (Cls [CRange (CHR ''A'') (CHR ''Z''), CRange (CHR ''0'') (CHR ''9''), CChar (CHR ''-'')])"

definition po_re :: regex where
  "po_re = seqs [lit ''PO'', star sp, opt (Ch (CHR ''#'')), star sp, Grp 1 id_token]"

text \<open>\<^verbatim>\<open>Invoice\s*Number[:\s]+([A-Z0-9\-]+)\<close> with \<open>re.I\<close>\<close>

definition colon_or_space :: regex where
  "colon_or_space = Cls [CChar (CHR '':''), CSpace]"

definition inv_re :: regex where
  "inv_re = seqs [lit ''Invoice'', star sp, lit ''Number'', plus colon_or_space, Grp 1 id_token]"

text \<open>\<^verbatim>\<open>(?:[A-Z]{2,}-)?(\d{6,})\<close>\<close>

definition id_core_re :: regex where
  "id_core_re = Seq (opt (Seq (Rep 2 None AZ) (Ch (CHR ''-'')))) (Grp 1 (Rep 6 None d))"

text \<open>\<^verbatim>\<open>Vendor[:\s]+(.+)\<close> with \<open>re.I\<close>\<close>

definition vendor_re :: regex where
  "vendor_re = seqs [lit ''Vendor'', plus colon_or_space, Grp 1 (plus Dot)]"

text \<open>\<^verbatim>\<open>^(seller|vendor)\s*:\s*(.+)$\<close> with \<open>re.I | re.M\<close>\<close>

definition seller_inline_re :: regex where
  "seller_inline_re =
     seqs [Bol, Grp 1 (Alt (lit ''seller'') (lit ''vendor'')), star sp, Ch (CHR '':''), star sp,
           Grp 2 (plus Dot), Eol]"

text \<open>\<^verbatim>\<open>(jan|feb|mar|apr|may|jun|jul|aug|sep|sept|oct|nov|dec)[a-z]*\s+\d{1,2},\s+\d{4}\<close> with \<open>re.I\<close>\<close>

definition month_re :: regex where
  "month_re =
     seqs [Grp 1 (alts (map lit [''jan'', ''feb'', ''mar'', ''apr'', ''may'', ''jun'', ''jul'',
                                 ''aug'', ''sep'', ''sept'', ''oct'', ''nov'', ''dec''])),
           star (Cls [CRange (CHR ''a'') (CHR ''z'')]), plus sp, Rep 1 (Some 2) d, Ch (CHR '',''),
           plus sp, Rep 4 (Some 4) d]"

text \<open>The patterns written in place in the source.\<close>

text \<open>\<^verbatim>\<open>\s*(vendor|seller)\s*:?\s*\<close> with \<open>re.I\<close>, used with \<open>re.fullmatch\<close>\<close>

definition label_only_re :: regex where
  "label_only_re =
     seqs [star sp, Grp 1 (Alt (lit ''vendor'') (lit ''seller'')), star sp, opt (Ch (CHR '':'')), star sp]"

text \<open>\<^verbatim>\<open>[A-Z]{2,}-\d{6,}\<close> with \<open>re.I\<close>, and \<^verbatim>\<open>\d{8,}\<close>\<close>

definition prefixed_id_re :: regex where
  "prefixed_id_re = seqs [Rep 2 None AZ, Ch (CHR ''-''), Rep 6 None d]"

definition digits8_re :: regex where
  "digits8_re = Rep 8 None d"

text \<open>\<^verbatim>\<open>\s+\<close>, \<^verbatim>\<open>[^0-9\.]+\<close>, \<^verbatim>\<open>[\.,]\<close>\<close>

definition ws_plus_re :: regex where
  "ws_plus_re = plus sp"

definition not_amount_re :: regex where
  "not_amount_re = plus (NCls [CRange (CHR ''0'') (CHR ''9''), CChar (CHR ''.'')])"

definition dot_comma_re :: regex where
  "dot_comma_re = Cls [CChar (CHR ''.''), CChar (CHR '','')]"

text \<open>\<^verbatim>\<open>\b(pvt|private)\b\s*\b(ltd|limited)\b\<close> and \<^verbatim>\<open>\b(incorporated|inc|llc|ltd)\b\<close>\<close>

definition pvt_ltd_re :: regex where
  "pvt_ltd_re =
     seqs [WordB, Grp 1 (Alt (lit ''pvt'') (lit ''private'')), WordB, star sp, WordB,
           Grp 2 (Alt (lit ''ltd'') (lit ''limited'')), WordB]"

definition suffix_re :: regex where
  "suffix_re =
     seqs [WordB, Grp 1 (alts (map lit [''incorporated'', ''inc'', ''llc'', ''ltd''])), WordB]"

section \<open>Floating-point numbers\<close>

text \<open>
  Python's \<open>float\<close> is the IEEE 754 binary64 format.  A finite double is kept as the
  rational number it denotes, so that rounding is explicit: \<open>round_double x\<close> is the
  double nearest to the rational \<open>x\<close>, ties to the even significand, with 53 bits of
  significand, exponents down to the subnormal spacing \<open>2^-1074\<close>, and overflow to
  infinity from \<open>2^1024\<close> on.  Signed zeros are not told apart.
\<close>

datatype fl = Fin rat | PInf | NInf | NaN

definition pow2 :: "int \<Rightarrow> rat" where
  "pow2 e = (if 0 \<le> e then 2 ^ nat e else 1 / 2 ^ nat (- e))"

fun bit_len :: "nat \<Rightarrow> nat" where
  "bit_len n = (if n = 0 then 0 else Suc (bit_len (n div 2)))"

declare bit_len.simps [simp del]

text \<open>\<open>ilog2 x\<close> is \<open>\<lfloor>log\<^sub>2 x\<rfloor>\<close> for a positive rational \<open>x\<close>.\<close>

definition ilog2 :: "rat \<Rightarrow> int" where
  "ilog2 x =
     (let (p, q) = quotient_of x;
          k = int (bit_len (nat p)) - int (bit_len (nat q))
      in if pow2 k \<le> x then k else k - 1)"

definition round_half_even :: "rat \<Rightarrow> int" where
  "round_half_even x =
     (let f = \<lfloor>x\<rfloor>; r = x - of_int f
      in if r < 1 / 2 then f else if 1 / 2 < r then f + 1 else if even f then f else f + 1)"

definition round_double :: "rat \<Rightarrow> fl" where
  "round_double x =
     (if x = 0 then Fin 0
      else let a = \<bar>x\<bar>;
               e = max (ilog2 a - 52) (- 1074);
               v = of_int (round_half_even (a / pow2 e)) * pow2 e
           in if pow2 1024 \<le> v then (if 0 < x then PInf else NInf)
              else Fin (if 0 < x then v else - v))"

text \<open>The difference of two doubles, its absolute value, and the comparison \<open><\<close>.\<close>

fun fl_sub :: "fl \<Rightarrow> fl \<Rightarrow> fl" where
  "fl_sub (Fin a) (Fin b) = round_double (a - b)"
| "fl_sub NaN _ = NaN"
| "fl_sub _ NaN = NaN"
| "fl_sub PInf PInf = NaN"
| "fl_sub NInf NInf = NaN"
| "fl_sub PInf _ = PInf"
| "fl_sub NInf _ = NInf"
| "fl_sub (Fin a) PInf = NInf"
| "fl_sub (Fin a) NInf = PInf"

fun fl_abs :: "fl \<Rightarrow> fl" where
  "fl_abs (Fin a) = Fin \<bar>a\<bar>"
| "fl_abs PInf = PInf"
| "fl_abs NInf = PInf"
| "fl_abs NaN = NaN"

fun fl_less :: "fl \<Rightarrow> fl \<Rightarrow> bool" where
  "fl_less (Fin a) (Fin b) = (a < b)"
| "fl_less NaN _ = False"
| "fl_less _ NaN = False"
| "fl_less NInf NInf = False"
| "fl_less NInf _ = True"
| "fl_less PInf _ = False"
| "fl_less (Fin a) PInf = True"
| "fl_less (Fin a) NInf = False"

text \<open>
  \<open>float(s)\<close> on the strings that reach it here: \<open>_normalize_amount\<close> calls it on a
  string of digits and dots only, and \<open>compare_records\<close> on what \<open>_normalize_amount\<close>
  returned.  So the model reads an unsigned decimal numeral without exponent (digits
  with at most one dot and at least one digit) and the word \<open>inf\<close>; every other string
  is a \<open>ValueError\<close>, here \<open>None\<close>.  The decimal value is rounded correctly.
\<close>

definition digit_val :: "char \<Rightarrow> nat" where
  "digit_val c = length (takeWhile (\<lambda>x. x \<noteq> c) ''0123456789'')"

definition nat_of_digits :: "string \<Rightarrow> nat" where
  "nat_of_digits ds = foldl (\<lambda>n c. 10 * n + digit_val c) 0 ds"

definition is_decimal :: "string \<Rightarrow> bool" where
  "is_decimal s =
     ((\<forall>c \<in> set s. is_digit c \<or> c = CHR ''.'') \<and>
      length (filter (\<lambda>c. c = CHR ''.'') s) \<le> 1 \<and>
      (\<exists>c \<in> set s. is_digit c))"

definition decimal_value :: "string \<Rightarrow> rat" where
  "decimal_value s =
     (let ip = takeWhile is_digit s; fp = drop (Suc (length ip)) s
      in of_nat (nat_of_digits ip) + of_nat (nat_of_digits fp) / 10 ^ length fp)"

definition py_float :: "string \<Rightarrow> fl option" where
  "py_float s =
     (if s = ''inf'' then Some PInf
      else if is_decimal s then Some (round_double (decimal_value s))
      else None)"

text \<open>
  The format \<open>f"{val:.2f}"\<close>: the exact value of the double is rounded to two decimals,
  ties to even, and written with all its integer digits.
\<close>

definition digit_char :: "nat \<Rightarrow> char" where
  "digit_char n = ''0123456789'' ! (n mod 10)"

fun show_nat :: "nat \<Rightarrow> string" where
  "show_nat n = (if n < 10 then [digit_char n] else show_nat (n div 10) @ [digit_char n])"

declare show_nat.simps [simp del]

definition fmt_2f :: "fl \<Rightarrow> string" where
  "fmt_2f v =
     (case v of
        Fin x \<Rightarrow>
          (let n = nat (round_half_even (\<bar>x\<bar> * 100))
           in (if x < 0 then ''-'' else []) @ show_nat (n div 100) @ ''.'' @
              [digit_char (n div 10), digit_char n])
      | PInf \<Rightarrow> ''inf''
      | NInf \<Rightarrow> ''-inf''
      | NaN \<Rightarrow> ''nan'')"

section \<open>Value normalisation\<close>

text \<open>\<open>_clean\<close>: \<^verbatim>\<open>re.sub(r"\s+", " ", s).strip()\<close>\<close>

definition clean :: "string \<Rightarrow> string" where
  "clean s = strip (re_sub ws_plus_re False False '' '' s)"

text \<open>\<open>_normalize_amount\<close>; the \<open>try\<close> turns the \<open>ValueError\<close> of \<open>float\<close> into \<open>""\<close>.\<close>

definition normalize_amount :: "string \<Rightarrow> string" where
  "normalize_amount text =
     (if text = [] then []
      else let s = replace ''usd'' [] (replace ''USD'' [] (replace '','' [] text));
               s = re_sub not_amount_re False False [] s
           in case py_float s of Some val \<Rightarrow> fmt_2f val | None \<Rightarrow> [])"

text \<open>\<open>_normalize_company\<close>\<close>

definition normalize_company :: "string \<Rightarrow> string" where
  "normalize_company name =
     (let s = lower (clean name);
          s = re_sub dot_comma_re False False [] s;
          s = re_sub pvt_ltd_re False False [] s;
          s = re_sub suffix_re False False [] s;
          s = strip (re_sub ws_plus_re False False '' '' s)
      in s)"

section \<open>Records\<close>

text \<open>
  A raw record is a Python \<open>dict\<close> from strings to strings or \<open>None\<close>, kept as the list
  of its items in insertion order; an absent record is \<open>None\<close>.  A canonical record is a
  \<open>dict\<close> from strings to strings.  The errors are the exceptions the code could raise:
  a missing key, an index out of range, and a \<open>None\<close> used where a string is needed
  (a group that took no part in its match).
\<close>

type_synonym raw_record = "(string \<times> string option) list"
type_synonym canon = "string \<rightharpoonup> string"

datatype py_error = KeyError | IndexError | NoneError

definition bnd :: "py_error + 'a \<Rightarrow> ('a \<Rightarrow> py_error + 'b) \<Rightarrow> py_error + 'b" where
  "bnd x f = (case x of Inl e \<Rightarrow> Inl e | Inr a \<Rightarrow> f a)"

text \<open>\<open>result[k]\<close>, \<open>xs[i]\<close>, \<open>xs[-1]\<close> and \<open>m.group(k)\<close> used as a string.\<close>

definition item :: "canon \<Rightarrow> string \<Rightarrow> py_error + string" where
  "item res k = (case res k of None \<Rightarrow> Inl KeyError | Some v \<Rightarrow> Inr v)"

definition index :: "'a list \<Rightarrow> nat \<Rightarrow> py_error + 'a" where
  "index xs i = (if i < length xs then Inr (xs ! i) else Inl IndexError)"

definition index_last :: "'a list \<Rightarrow> py_error + 'a" where
  "index_last xs = (if xs = [] then Inl IndexError else Inr (last xs))"

definition group_str :: "string \<Rightarrow> match_obj \<Rightarrow> nat \<Rightarrow> py_error + string" where
  "group_str s m k = (case group s m k of None \<Rightarrow> Inl NoneError | Some g \<Rightarrow> Inr g)"

text \<open>\<open>rec.get(k)\<close>: \<open>None\<close> when the key is absent or holds \<open>None\<close>.\<close>

definition rec_get :: "raw_record \<Rightarrow> string \<Rightarrow> string option" where
  "rec_get r k = (case map_of r k of Some (Some v) \<Rightarrow> Some v | _ \<Rightarrow> None)"

section \<open>\<open>_normalize_record\<close>\<close>

text \<open>\<open>{k: "" for k in FIELDS}\<close>\<close>

definition empty_result :: canon where
  "empty_result = map_of (map (\<lambda>k. (k, [])) FIELDS)"

text \<open>\<open>{str(k).strip().lower(): str(v) for k, v in rec.items() if v is not None}\<close>\<close>

definition lower_map :: "raw_record \<Rightarrow> (string \<rightharpoonup> string)" where
  "lower_map r =
     fold (\<lambda>kv m. case snd kv of None \<Rightarrow> m | Some v \<Rightarrow> m(lower (strip (fst kv)) \<mapsto> v)) r Map.empty"

text \<open>The loop over \<open>SYNONYMS\<close>: for each field the first synonym that is a key wins.\<close>

fun first_present :: "(string \<rightharpoonup> string) \<Rightarrow> string list \<Rightarrow> string option" where
  "first_present m [] = None"
| "first_present m (k # ks) = (case m k of Some v \<Rightarrow> Some v | None \<Rightarrow> first_present m ks)"

fun resolve_synonyms :: "(string \<rightharpoonup> string) \<Rightarrow> (string \<times> string list) list \<Rightarrow> canon \<Rightarrow> canon" where
  "resolve_synonyms m [] res = res"
| "resolve_synonyms m ((std, keys) # rest) res =
     resolve_synonyms m rest
       (case first_present m keys of Some v \<Rightarrow> res(std \<mapsto> v) | None \<Rightarrow> res)"

text \<open>The label-only test of the vendor, and the shape test of the identifier.\<close>

definition label_only :: "string \<Rightarrow> bool" where
  "label_only v = (re_fullmatch label_only_re True False v \<noteq> None)"

definition sanitize_vendor :: "canon \<Rightarrow> py_error + canon" where
  "sanitize_vendor res =
     bnd (item res ''vendor'') (\<lambda>v.
       Inr (if v \<noteq> [] \<and> label_only v then res(''vendor'' \<mapsto> []) else res))"

definition valid_id :: "string \<Rightarrow> bool" where
  "valid_id id_val =
     (re_search id_core_re False False id_val \<noteq> None \<or>
      re_search prefixed_id_re True False id_val \<noteq> None \<or>
      re_search digits8_re False False id_val \<noteq> None)"

definition sanitize_po :: "canon \<Rightarrow> py_error + canon" where
  "sanitize_po res =
     bnd (item res ''po_number'') (\<lambda>p.
       Inr (if p \<noteq> [] \<and> \<not> valid_id (strip p) then res(''po_number'' \<mapsto> []) else res))"

text \<open>The fallbacks on the raw text, in the order of the source.\<close>

definition search_or :: "match_obj option \<Rightarrow> match_obj option \<Rightarrow> match_obj option" where
  "search_or a b = (case a of Some m \<Rightarrow> Some m | None \<Rightarrow> b)"

definition fallback_date :: "string \<Rightarrow> canon \<Rightarrow> py_error + canon" where
  "fallback_date raw res =
     bnd (item res ''date'') (\<lambda>dt.
       if dt \<noteq> [] then Inr res
       else case search_or (re_search date_re False False raw) (re_search month_re True False raw) of
              None \<Rightarrow> Inr res
            | Some m \<Rightarrow> Inr (res(''date'' \<mapsto> group0 raw m)))"

definition fallback_po :: "string \<Rightarrow> canon \<Rightarrow> py_error + canon" where
  "fallback_po raw res =
     bnd (item res ''po_number'') (\<lambda>p.
       if p \<noteq> [] then Inr res
       else case search_or (re_search inv_re True False raw) (re_search po_re True False raw) of
              None \<Rightarrow> Inr res
            | Some m \<Rightarrow>
                bnd (group_str raw m 1) (\<lambda>g.
                  let id_val = strip g in
                  case re_search id_core_re False False id_val of
                    None \<Rightarrow> Inr (res(''po_number'' \<mapsto> id_val))
                  | Some core \<Rightarrow>
                      bnd (group_str id_val core 1) (\<lambda>c. Inr (res(''po_number'' \<mapsto> c)))))"

text \<open>
  \<open>_money_re.findall(raw)\<close>: the list of the pairs (currency code, amount) of the
  matches; \<open>findall\<close> gives \<open>""\<close> for a group that took no part.
\<close>

definition group_or_empty :: "string \<Rightarrow> match_obj \<Rightarrow> nat \<Rightarrow> string" where
  "group_or_empty s m k = (case group s m k of None \<Rightarrow> [] | Some g \<Rightarrow> g)"

definition money_findall :: "string \<Rightarrow> (string \<times> string) list" where
  "money_findall raw =
     map (\<lambda>m. (group_or_empty raw m 1, group_or_empty raw m 2)) (re_findall money_re False False raw)"

definition fallback_total :: "string \<Rightarrow> canon \<Rightarrow> py_error + canon" where
  "fallback_total raw res =
     bnd (item res ''total'') (\<lambda>t.
       if t \<noteq> [] then Inr res
       else let m = money_findall raw in
            if m = [] then Inr res
            else bnd (index_last m) (\<lambda>l. Inr (res(''total'' \<mapsto> normalize_amount (snd l)))))"

text \<open>\<open>next((c for c, _ in m if c), "")\<close>\<close>

definition first_code :: "(string \<times> string) list \<Rightarrow> string" where
  "first_code m = (case filter (\<lambda>c. c \<noteq> []) (map fst m) of [] \<Rightarrow> [] | c # _ \<Rightarrow> c)"

definition fallback_currency :: "string \<Rightarrow> canon \<Rightarrow> py_error + canon" where
  "fallback_currency raw res =
     bnd (item res ''currency'') (\<lambda>c.
       if c \<noteq> [] then Inr res
       else let m = money_findall raw in
            if m = [] then Inr res else Inr (res(''currency'' \<mapsto> first_code m)))"

text \<open>
  The vendor: the same-line pattern, then the loop over the lines (a line that starts
  with \<open>seller:\<close> or \<open>vendor:\<close> and the line after it), then the generic pattern.
\<close>

definition is_label_line :: "string \<Rightarrow> bool" where
  "is_label_line line = (startswith (lower line) ''seller:'' \<or> startswith (lower line) ''vendor:'')"

fun scan_lines :: "string list \<Rightarrow> (nat \<times> string) list \<Rightarrow> py_error + string option" where
  "scan_lines lines [] = Inr None"
| "scan_lines lines ((idx, line) # rest) =
     (if is_label_line line
      then bnd (if idx + 1 < length lines then bnd (index lines (idx + 1)) (\<lambda>l. Inr (strip l)) else Inr [])
             (\<lambda>name. if name \<noteq> [] then Inr (Some (take 64 (clean name))) else scan_lines lines rest)
      else scan_lines lines rest)"

definition vendor_inline :: "string \<Rightarrow> canon \<Rightarrow> py_error + canon" where
  "vendor_inline raw res =
     (case re_search seller_inline_re True True raw of
        None \<Rightarrow> Inr res
      | Some m \<Rightarrow> bnd (group_str raw m 2) (\<lambda>g. Inr (res(''vendor'' \<mapsto> take 64 (clean g)))))"

definition vendor_next_line :: "string \<Rightarrow> canon \<Rightarrow> py_error + canon" where
  "vendor_next_line raw res =
     bnd (item res ''vendor'') (\<lambda>v.
       if v \<noteq> [] then Inr res
       else let lines = map rstrip (splitlines raw) in
            bnd (scan_lines lines (enumerate 0 lines)) (\<lambda>found.
              case found of None \<Rightarrow> Inr res | Some name \<Rightarrow> Inr (res(''vendor'' \<mapsto> name))))"

definition vendor_generic :: "string \<Rightarrow> canon \<Rightarrow> py_error + canon" where
  "vendor_generic raw res =
     bnd (item res ''vendor'') (\<lambda>v.
       if v \<noteq> [] then Inr res
       else case re_search vendor_re True False raw of
              None \<Rightarrow> Inr res
            | Some m \<Rightarrow> bnd (group_str raw m 1) (\<lambda>g. Inr (res(''vendor'' \<mapsto> take 64 (clean g)))))"

definition fallback_vendor :: "string \<Rightarrow> canon \<Rightarrow> py_error + canon" where
  "fallback_vendor raw res =
     bnd (item res ''vendor'') (\<lambda>v.
       if v \<noteq> [] then Inr res
       else bnd (vendor_inline raw res) (\<lambda>res.
            bnd (vendor_next_line raw res) (vendor_generic raw)))"

definition fallbacks :: "string \<Rightarrow> canon \<Rightarrow> py_error + canon" where
  "fallbacks raw res =
     bnd (fallback_date raw res) (\<lambda>res.
     bnd (fallback_po raw res) (\<lambda>res.
     bnd (fallback_total raw res) (\<lambda>res.
     bnd (fallback_currency raw res) (fallback_vendor raw))))"

definition synonym_stage :: "raw_record \<Rightarrow> canon" where
  "synonym_stage r = resolve_synonyms (lower_map r) SYNONYMS empty_result"

definition normalize_record :: "raw_record option \<Rightarrow> py_error + canon" where
  "normalize_record rec =
     (case rec of
        None \<Rightarrow> Inr empty_result
      | Some r \<Rightarrow>
          if r = [] then Inr empty_result
          else bnd (sanitize_vendor (synonym_stage r)) (\<lambda>res.
               bnd (sanitize_po res) (\<lambda>res.
               case rec_get r ''_raw'' of
                 None \<Rightarrow> Inr res
               | Some raw \<Rightarrow> if raw = [] then Inr res else fallbacks raw res)))"

section \<open>\<open>compare_records\<close>\<close>

datatype status = Match | Mismatch | Missing

record row =
  field :: string
  invoice :: string
  po :: string
  status :: status

text \<open>\<open>_candidate_fields\<close>\<close>

definition rec_keys :: "raw_record option \<Rightarrow> string list" where
  "rec_keys rec = (case rec of None \<Rightarrow> [] | Some r \<Rightarrow> map fst r)"

definition candidate_fields :: "raw_record option \<Rightarrow> raw_record option \<Rightarrow> string set" where
  "candidate_fields inv_rec po_rec =
     set (FIELDS @ filter (\<lambda>lk. lk \<noteq> [] \<and> lk \<noteq> ''_raw'')
                     (map (\<lambda>k. lower (strip k)) (rec_keys inv_rec @ rec_keys po_rec)))"

text \<open>\<open>_resolve\<close>\<close>

definition resolve :: "raw_record option \<Rightarrow> string \<Rightarrow> canon \<Rightarrow> py_error + string" where
  "resolve rec std_field normalized =
     (let val = strip (case normalized std_field of None \<Rightarrow> [] | Some v \<Rightarrow> v) in
      if val \<noteq> [] then Inr val
      else case (case rec of None \<Rightarrow> None | Some r \<Rightarrow> rec_get r std_field) of
             None \<Rightarrow> Inr []
           | Some raw_val \<Rightarrow>
               let s = strip raw_val in
               if s = [] then Inr []
               else if std_field = ''vendor'' then (if label_only s then Inr [] else Inr s)
               else if std_field = ''po_number'' then
                 (case re_search id_core_re False False s of
                    None \<Rightarrow> Inr []
                  | Some core \<Rightarrow> group_str s core 1)
               else Inr s)"

text \<open>The status of one field; \<open>0.01\<close> is the double nearest to it.\<close>

definition total_status :: "string \<Rightarrow> string \<Rightarrow> status" where
  "total_status iv pv =
     (let ni = normalize_amount iv; np = normalize_amount pv in
      if ni \<noteq> [] \<and> np \<noteq> [] then
        (case (py_float ni, py_float np) of
           (Some a, Some b) \<Rightarrow>
             if fl_less (fl_abs (fl_sub a b)) (round_double (1 / 100)) then Match else Mismatch
         | _ \<Rightarrow> Mismatch)
      else Missing)"

definition text_status :: "string \<Rightarrow> string \<Rightarrow> status" where
  "text_status lv rv =
     (if lv \<noteq> [] \<and> rv \<noteq> [] \<and> lv = rv then Match
      else if lv = [] \<or> rv = [] then Missing else Mismatch)"

definition id_fields :: "string list" where
  "id_fields = [''po_number'', ''invoice number'', ''purchase order number'', ''order number'']"

definition field_status :: "string \<Rightarrow> string \<Rightarrow> string \<Rightarrow> status" where
  "field_status f iv pv =
     (if f = ''total'' then total_status iv pv
      else let lv = lower (clean iv); rv = lower (clean pv);
               lv = (if f = ''vendor'' then normalize_company lv else lv);
               rv = (if f = ''vendor'' then normalize_company rv else rv)
           in if f \<in> set id_fields then
                (case (re_search id_core_re False False iv, re_search id_core_re False False pv) of
                   (Some li, Some ri) \<Rightarrow> if group iv li 1 = group pv ri 1 then Match else Mismatch
                 | _ \<Rightarrow> text_status lv rv)
              else text_status lv rv)"

text \<open>The loop over the sorted candidate fields, with the rows and the count so far.\<close>

fun compare_loop ::
  "raw_record option \<Rightarrow> raw_record option \<Rightarrow> canon \<Rightarrow> canon \<Rightarrow> string list \<Rightarrow>
   row list \<times> int \<Rightarrow> py_error + row list \<times> int" where
  "compare_loop inv_rec po_rec inv_n po_n [] acc = Inr acc"
| "compare_loop inv_rec po_rec inv_n po_n (f # fs) acc =
     bnd (resolve inv_rec f inv_n) (\<lambda>iv.
     bnd (resolve po_rec f po_n) (\<lambda>pv.
       if iv = [] \<and> pv = [] then compare_loop inv_rec po_rec inv_n po_n fs acc
       else let st = field_status f iv pv in
            compare_loop inv_rec po_rec inv_n po_n fs
              (fst acc @ [\<lparr>field = f, invoice = iv, po = pv, status = st\<rparr>],
               if st = Mismatch then snd acc + 1 else snd acc)))"

definition compare_records :: "raw_record option \<Rightarrow> raw_record option \<Rightarrow> py_error + row list \<times> int" where
  "compare_records inv_rec po_rec =
     bnd (normalize_record inv_rec) (\<lambda>inv_n.
     bnd (normalize_record po_rec) (\<lambda>po_n.
     bnd (compare_loop inv_rec po_rec inv_n po_n (sorted_list_of_set (candidate_fields inv_rec po_rec)) ([], 0))
       (\<lambda>acc. if fst acc = [] then Inr ([], 0) else Inr acc)))"

section \<open>Auxiliary notions for the proofs\<close>

text \<open>\<open>sets_grp k r\<close>: group \<open>k\<close> takes part in every match of \<open>r\<close>.\<close>

fun sets_grp :: "nat \<Rightarrow> regex \<Rightarrow> bool" where
  "sets_grp k (Grp n r) = (n = k \<or> sets_grp k r)"
| "sets_grp k (Seq a b) = (sets_grp k a \<or> sets_grp k b)"
| "sets_grp k (Alt a b) = (sets_grp k a \<and> sets_grp k b)"
| "sets_grp k (Rep lo hi r) = (0 < lo \<and> sets_grp k r)"
| "sets_grp k _ = False"

section \<open>Example records\<close>

definition C2_invoice :: "raw_record option" where
  "C2_invoice = Some [(''PO'', Some ''PO-000123456'')]"

definition C2_po :: "raw_record option" where
  "C2_po = Some [(''PO'', Some ''123456'')]"

definition C10_invoice :: "raw_record option" where
  "C10_invoice = Some [(''vendor'', Some ''Inc.'')]"

definition C10_po :: "raw_record option" where
  "C10_po = Some [(''vendor'', Some ''Acme'')]"

definition C1_invoice :: "raw_record option" where
  "C1_invoice = Some [(''Seller'', Some ''Acme Inc.''), (''Total'', Some ''$1,200.00''),
                      (''Invoice Number'', Some ''INV-000987654'')]"

definition C1_po :: "raw_record option" where
  "C1_po = Some [(''vendor'', Some ''ACME''), (''amount due'', Some ''1200.00''), (''po'', Some ''987654'')]"

definition C7_invoice :: "raw_record option" where
  "C7_invoice = Some [(''total'', Some ''0.06'')]"

definition C7_po :: "raw_record option" where
  "C7_po = Some [(''total'', Some ''0.05'')]"

text \<open>
  \<open>C4_source\<close> is a raw record that holds only a text blob; \<open>C4_record\<close> presents
  the canonical record computed from it as a raw record with the canonical keys.
  \<open>C4_plain\<close> is a canonical record with an ordinary vendor name.
\<close>

definition C4_source :: "raw_record option" where
  "C4_source = Some [(''_raw'', Some (''vendor: Seller:'' @ [CHR 0x0A] @ ''PO 123456''))]"

definition C4_record :: "raw_record option" where
  "C4_record = Some [(''vendor'', Some ''Seller:''), (''date'', Some []),
                     (''currency'', Some []), (''total'', Some []), (''po_number'', Some ''123456'')]"

definition C4_plain :: raw_record where
  "C4_plain = [(''vendor'', Some ''Acme Corp''), (''date'', Some ''2024-01-05''),
               (''currency'', Some ''USD''), (''total'', Some ''10.00''), (''po_number'', Some ''123456'')]"

text \<open>
  A canonical record with the values \<open>v\<close>, \<open>dt\<close>, \<open>cu\<close>, \<open>t\<close>, \<open>p\<close>, presented as a raw record:
  a dictionary whose items, in any order, are the five canonical keys with these values.
\<close>

definition canonical_items :: "string \<Rightarrow> string \<Rightarrow> string \<Rightarrow> string \<Rightarrow> string \<Rightarrow> (string \<times> string option) set" where
  "canonical_items v dt cu t p =
     {(''vendor'', Some v), (''date'', Some dt), (''currency'', Some cu), (''total'', Some t),
      (''po_number'', Some p)}"

text \<open>
  \<open>resolved rec f\<close>: the value \<open>compare_records\<close> gets for field \<open>f\<close> of a record, that
  is \<open>_resolve(rec, f, _normalize_record(rec))\<close>.  \<open>id_core s\<close>: group 1 of the first
  match of the identifier-core pattern in \<open>s\<close>.
\<close>

definition resolved :: "raw_record option \<Rightarrow> string \<Rightarrow> py_error + string" where
  "resolved rec f = bnd (normalize_record rec) (resolve rec f)"

definition id_core :: "string \<Rightarrow> string option" where
  "id_core s = (case re_search id_core_re False False s of None \<Rightarrow> None | Some m \<Rightarrow> group s m 1)"

text \<open>
  \<open>C5_record\<close> holds a text in which a textual date comes before a numeric one;
  \<open>C5_invalid\<close> holds a text whose only date is no calendar date.
\<close>

definition C5_raw :: string where
  "C5_raw = ''Jan 5, 2024 and 1/2/24''"

definition C5_record :: "raw_record option" where
  "C5_record = Some [(''_raw'', Some C5_raw)]"

definition C5_invalid :: raw_record where
  "C5_invalid = [(''_raw'', Some ''Due 99/99/9999'')]"

section \<open>Properties of the floating-point model\<close>

lemma bit_len_bounds: "0 < n \<Longrightarrow> 2 ^ (bit_len n - 1) \<le> n \<and> n < 2 ^ bit_len n"
proof (induction n rule: bit_len.induct)
  case (1 n)
  show ?case
  proof (cases "n div 2 = 0")
    case True
    with 1(2) have "n = 1" by presburger
    have "bit_len (Suc 0) = Suc 0"
      by (simp add: bit_len.simps[of "Suc 0"] bit_len.simps[of 0])
    with \<open>n = 1\<close> show ?thesis by simp
  next
    case False
    then have pos: "0 < n div 2" by simp
    from 1(1)[OF _ pos] 1(2) have ih: "2 ^ (bit_len (n div 2) - 1) \<le> n div 2" "n div 2 < 2 ^ bit_len (n div 2)"
      by auto
    have bl: "bit_len n = Suc (bit_len (n div 2))" using 1(2) by (subst bit_len.simps) simp
    have blpos: "0 < bit_len (n div 2)" using pos by (subst bit_len.simps) simp
    have e1: "(2::nat) ^ (bit_len n - 1) = 2 * 2 ^ (bit_len (n div 2) - 1)"
      using bl blpos by (cases "bit_len (n div 2)") auto
    have e2: "(2::nat) ^ bit_len n = 2 * 2 ^ bit_len (n div 2)"
      using bl by simp
    have "2 * (n div 2) \<le> n" by simp
    moreover have "n < 2 * (n div 2) + 2" by presburger
    ultimately show ?thesis unfolding e1 e2 using ih by linarith
  qed
qed

lemma pow2_pos: "0 < pow2 k" by (simp add: pow2_def)

lemma pow2_add: "pow2 (a + b) = pow2 a * pow2 b"
proof -
  have "pow2 k = 2 powi k" for k
    by (simp add: pow2_def power_int_def field_simps)
  then show ?thesis by (simp add: power_int_add)
qed

lemma pow2_mono: "a \<le> b \<Longrightarrow> pow2 a \<le> pow2 b"
proof -
  have "pow2 k = 2 powi k" for k
    by (simp add: pow2_def power_int_def field_simps)
  then show "a \<le> b \<Longrightarrow> pow2 a \<le> pow2 b" by (simp add: power_int_increasing)
qed

lemma pow2_strict_mono: "a < b \<Longrightarrow> pow2 a < pow2 b"
proof -
  have "pow2 k = 2 powi k" for k
    by (simp add: pow2_def power_int_def field_simps)
  then show "a < b \<Longrightarrow> pow2 a < pow2 b" by (simp add: power_int_strict_increasing)
qed

lemma pow2_nat: "pow2 (int n) = 2 ^ n" by (simp add: pow2_def)

lemma pow2_powi: "pow2 k = 2 powi k"
  by (simp add: pow2_def power_int_def field_simps)

lemma ilog2_bounds:
  assumes "0 < x"
  shows "pow2 (ilog2 x) \<le> x \<and> x < pow2 (ilog2 x + 1)"
proof -
  obtain p q where pq: "quotient_of x = (p, q)" by (cases "quotient_of x")
  then have q: "0 < q" and x: "x = of_int p / of_int q"
    using quotient_of_denom_pos quotient_of_div by blast+
  from assms x q have p: "0 < p" by (simp add: zero_less_divide_iff)
  define bp where "bp = bit_len (nat p)"
  define bq where "bq = bit_len (nat q)"
  define k where "k = int bp - int bq"
  from bit_len_bounds[of "nat p"] p have pb: "2 ^ (bp - 1) \<le> nat p" "nat p < 2 ^ bp"
    by (auto simp: bp_def)
  from bit_len_bounds[of "nat q"] q have qb: "2 ^ (bq - 1) \<le> nat q" "nat q < 2 ^ bq"
    by (auto simp: bq_def)
  have bp0: "0 < bp" using pb(2) p by (cases bp) auto
  have bq0: "0 < bq" using qb(2) q by (cases bq) auto
  have P1: "(2::rat) ^ (bp - 1) \<le> of_int p"
  proof -
    have "int (2 ^ (bp - 1)) \<le> p" using pb(1) p by linarith
    then have "(of_int (int (2 ^ (bp - 1)))::rat) \<le> of_int p" by (simp only: of_int_le_iff)
    then show ?thesis by simp
  qed
  have P2: "of_int p < (2::rat) ^ bp"
  proof -
    have "p < int (2 ^ bp)" using pb(2) p by linarith
    then have "(of_int p::rat) < of_int (int (2 ^ bp))" by (simp only: of_int_less_iff)
    then show ?thesis by simp
  qed
  have Q1: "(2::rat) ^ (bq - 1) \<le> of_int q"
  proof -
    have "int (2 ^ (bq - 1)) \<le> q" using qb(1) q by linarith
    then have "(of_int (int (2 ^ (bq - 1)))::rat) \<le> of_int q" by (simp only: of_int_le_iff)
    then show ?thesis by simp
  qed
  have Q2: "of_int q < (2::rat) ^ bq"
  proof -
    have "q < int (2 ^ bq)" using qb(2) q by linarith
    then have "(of_int q::rat) < of_int (int (2 ^ bq))" by (simp only: of_int_less_iff)
    then show ?thesis by simp
  qed
  have qr: "(0::rat) < of_int q" using q by simp
  have pk: "pow2 k = 2 ^ bp / 2 ^ bq"
    by (simp add: pow2_powi k_def power_int_diff)
  have p1: "pow2 1 = 2" "pow2 (- 1) = 1 / 2" by (simp_all add: pow2_def)
  have pk1: "pow2 (k + 1) = 2 * 2 ^ bp / 2 ^ bq"
    unfolding pow2_add[of k 1] pk p1 by simp
  have pkm: "pow2 (k - 1) = 2 ^ bp / (2 * 2 ^ bq)"
  proof -
    have "pow2 (k - 1) = pow2 k * pow2 (- 1)" using pow2_add[of k "- 1"] by simp
    then show ?thesis unfolding pk p1 by simp
  qed
  have up: "x < pow2 (k + 1)"
  proof -
    have "of_int p * (2::rat) ^ bq < 2 ^ bp * (2 * 2 ^ (bq - 1))"
      using bq0 P2 by (cases bq) auto
    also have "\<dots> \<le> 2 ^ bp * (2 * of_int q)" using Q1 by simp
    finally have "of_int p * (2::rat) ^ bq < 2 * 2 ^ bp * of_int q" by (simp add: mult_ac)
    then show ?thesis unfolding pk1 x using qr by (simp add: field_simps)
  qed
  have lo: "pow2 (k - 1) \<le> x"
  proof -
    have "(2::rat) ^ bp * of_int q \<le> 2 * 2 ^ (bp - 1) * of_int q"
      using bp0 by (cases bp) auto
    also have "\<dots> \<le> 2 * of_int p * of_int q" using P1 qr by simp
    also have "\<dots> \<le> 2 * of_int p * 2 ^ bq" using Q2 p by simp
    finally have "(2::rat) ^ bp * of_int q \<le> of_int p * (2 * 2 ^ bq)" by (simp add: mult_ac)
    then show ?thesis unfolding pkm x using qr by (simp add: field_simps)
  qed
  have il: "ilog2 x = (if pow2 k \<le> x then k else k - 1)"
    by (simp add: ilog2_def pq k_def bp_def bq_def Let_def)
  show ?thesis
  proof (cases "pow2 k \<le> x")
    case True
    with il up show ?thesis by simp
  next
    case False
    with il lo show ?thesis by simp
  qed
qed

lemma ilog2_eq:
  assumes "pow2 k \<le> x" "x < pow2 (k + 1)"
  shows "ilog2 x = k"
proof -
  have "0 < x" using assms(1) pow2_pos[of k] by linarith
  from ilog2_bounds[OF this] have b: "pow2 (ilog2 x) \<le> x" "x < pow2 (ilog2 x + 1)" by auto
  have "\<not> ilog2 x < k"
  proof
    assume "ilog2 x < k"
    then have "pow2 (ilog2 x + 1) \<le> pow2 k" by (intro pow2_mono) simp
    with b(2) assms(1) show False by linarith
  qed
  moreover have "\<not> k < ilog2 x"
  proof
    assume "k < ilog2 x"
    then have "pow2 (k + 1) \<le> pow2 (ilog2 x)" by (intro pow2_mono) simp
    with b(1) assms(2) show False by linarith
  qed
  ultimately show ?thesis by linarith
qed

lemma round_half_even_nearest:
  assumes "\<bar>x - of_int n\<bar> < 1 / 2"
  shows "round_half_even x = n"
proof -
  from assms have a: "of_int n - 1 / 2 < x" "x < of_int n + 1 / 2" by linarith+
  show ?thesis
  proof (cases "of_int n \<le> x")
    case True
    then have "\<lfloor>x\<rfloor> = n" using a(2) by (intro floor_unique) auto
    then show ?thesis using a(2) by (simp add: round_half_even_def Let_def)
  next
    case False
    then have f: "\<lfloor>x\<rfloor> = n - 1" using a(1) by (intro floor_unique) auto
    then have "\<not> x - of_int \<lfloor>x\<rfloor> < 1 / 2" "1 / 2 < x - of_int \<lfloor>x\<rfloor>" using a(1) by auto
    then show ?thesis using f by (simp add: round_half_even_def Let_def)
  qed
qed

lemma round_half_even_tie:
  assumes "x = of_int n + 1 / 2"
  shows "round_half_even x = (if even n then n else n + 1)"
proof -
  have "\<lfloor>x\<rfloor> = n" unfolding assms by (intro floor_unique) auto
  then show ?thesis by (simp add: round_half_even_def Let_def assms)
qed

lemma round_half_even_nonneg: "0 \<le> x \<Longrightarrow> 0 \<le> round_half_even x"
  by (auto simp: round_half_even_def Let_def)

lemma round_double_eval:
  assumes "pow2 k \<le> x" "x < pow2 (k + 1)"
  shows "round_double x =
     (let e = max (k - 52) (- 1074);
          v = of_int (round_half_even (x / pow2 e)) * pow2 e
      in if pow2 1024 \<le> v then PInf else Fin v)"
proof -
  have "0 < x" using assms(1) pow2_pos[of k] by linarith
  moreover have "ilog2 \<bar>x\<bar> = k" using ilog2_eq[OF assms] \<open>0 < x\<close> by simp
  ultimately show ?thesis by (simp add: round_double_def Let_def)
qed

lemma round_double_is:
  assumes "pow2 k \<le> x" "x < pow2 (k + 1)" "e = max (k - 52) (- 1074)"
    and "\<bar>x / pow2 e - of_int n\<bar> < 1 / 2" "of_int n * pow2 e < pow2 1024"
  shows "round_double x = Fin (of_int n * pow2 e)"
  using assms(3,5) round_half_even_nearest[OF assms(4)]
  by (simp add: round_double_eval[OF assms(1,2)] Let_def)

lemma round_double_nonneg:
  assumes "0 \<le> x"
  shows "round_double x = PInf \<or> (\<exists>v. round_double x = Fin v \<and> 0 \<le> v)"
proof (cases "x = 0")
  case True
  then show ?thesis by (simp add: round_double_def)
next
  case False
  with assms have "0 < x" by simp
  then have "0 \<le> of_int (round_half_even (x / pow2 e)) * pow2 e" for e
    using pow2_pos[of e] round_half_even_nonneg[of "x / pow2 e"] by simp
  with \<open>0 < x\<close> show ?thesis by (auto simp: round_double_def Let_def)
qed

lemma rd1200: "round_double 1200 = Fin 1200"
  using round_double_is[where k=10 and x=1200 and n="1200 * 2^42" and e="-42"]
  by (simp add: pow2_def)

lemma rd001: "round_double (1/100) = Fin (5764607523034235 / 576460752303423488)"
  using round_double_is[where k="-7" and x="1/100" and n="5764607523034235" and e="-59"]
  by (simp add: pow2_def)

lemma digit_table: "k < 10 \<Longrightarrow> is_digit (''0123456789'' ! k)"
proof -
  assume "k < 10"
  then have "k = 0 \<or> k = 1 \<or> k = 2 \<or> k = 3 \<or> k = 4 \<or> k = 5 \<or> k = 6 \<or> k = 7 \<or> k = 8 \<or> k = 9"
    by presburger
  then show ?thesis by (elim disjE) (simp_all add: is_digit_def)
qed

lemma digit_char_is_digit: "is_digit (digit_char n)"
  unfolding digit_char_def by (rule digit_table) simp

lemma show_nat_digits: "c \<in> set (show_nat n) \<Longrightarrow> is_digit c"
proof (induction n rule: show_nat.induct)
  case (1 n)
  show ?case
  proof (cases "n < 10")
    case True
    with 1(2) show ?thesis by (simp add: show_nat.simps[of n] digit_char_is_digit)
  next
    case False
    with 1 show ?thesis by (auto simp: show_nat.simps[of n] digit_char_is_digit)
  qed
qed

lemma show_nat_nonempty: "show_nat n \<noteq> []"
  by (simp add: show_nat.simps[of n])

lemma is_digit_not_dot: "is_digit c \<Longrightarrow> c \<noteq> CHR ''.''"
  by (auto simp: is_digit_def)

lemma fmt_2f_decimal:
  assumes "0 \<le> x"
  shows "is_decimal (fmt_2f (Fin x))"
proof -
  define n where "n = nat (round_half_even (\<bar>x\<bar> * 100))"
  have f: "fmt_2f (Fin x) = show_nat (n div 100) @ ''.'' @ [digit_char (n div 10), digit_char n]"
    using assms by (simp add: fmt_2f_def n_def Let_def)
  have d: "\<forall>c \<in> set (show_nat (n div 100)). is_digit c" using show_nat_digits by blast
  then have nd: "filter (\<lambda>c. c = CHR ''.'') (show_nat (n div 100)) = []"
    by (auto simp: filter_empty_conv dest: is_digit_not_dot)
  have dd: "digit_char k \<noteq> CHR ''.''" for k using digit_char_is_digit is_digit_not_dot by blast
  show ?thesis unfolding is_decimal_def f
    using d nd dd digit_char_is_digit by auto
qed

lemma py_float_fmt_2f:
  assumes "v = PInf \<or> (\<exists>x. v = Fin x \<and> 0 \<le> x)"
  shows "\<exists>w. py_float (fmt_2f v) = Some w"
  using assms fmt_2f_decimal by (auto simp: py_float_def fmt_2f_def)

lemma nat_of_digits_nonneg: "0 \<le> decimal_value s"
  by (simp add: decimal_value_def Let_def)

lemma py_float_range:
  assumes "py_float s = Some v"
  shows "v = PInf \<or> (\<exists>x. v = Fin x \<and> 0 \<le> x)"
  using assms round_double_nonneg[OF nat_of_digits_nonneg, of s]
  by (auto simp: py_float_def split: if_splits)

lemma normalize_amount_parses:
  assumes "normalize_amount t \<noteq> []"
  shows "\<exists>w. py_float (normalize_amount t) = Some w"
proof -
  from assms obtain s v where "py_float s = Some v" "normalize_amount t = fmt_2f v"
    by (auto simp: normalize_amount_def Let_def split: if_splits option.splits)
  then show ?thesis using py_float_fmt_2f[OF py_float_range] by metis
qed

lemma rep_greedy_rel:
  assumes refl: "\<And>st. R st st"
    and trans: "\<And>a b c. R a b \<Longrightarrow> R b c \<Longrightarrow> R a c"
    and step: "\<And>st st'. st' \<in> set (m st) \<Longrightarrow> R st st'"
  shows "st' \<in> set (rep_greedy m fuel hi st) \<Longrightarrow> R st st'"
proof (induction fuel arbitrary: hi st)
  case 0
  then show ?case using refl by simp
next
  case (Suc fuel)
  show ?case
  proof (cases "hi = Some 0")
    case True
    with Suc.prems show ?thesis using refl by simp
  next
    case False
    with Suc.prems consider "st' = st"
      | st1 where "st1 \<in> set (m st)" "st' \<in> set (rep_greedy m fuel (map_option (\<lambda>h. h - 1) hi) st1)"
      by auto
    then show ?thesis
    proof cases
      case 1
      then show ?thesis using refl by simp
    next
      case 2
      then show ?thesis using Suc.IH step trans by blast
    qed
  qed
qed

lemma rep_min_rel:
  assumes trans: "\<And>a b c. R a b \<Longrightarrow> R b c \<Longrightarrow> R a c"
    and step: "\<And>st st'. st' \<in> set (m st) \<Longrightarrow> R st st'"
    and cont: "\<And>st st'. st' \<in> set (k st) \<Longrightarrow> R st st'"
  shows "st' \<in> set (rep_min m n k st) \<Longrightarrow> R st st'"
proof (induction n arbitrary: st)
  case 0
  then show ?case using cont by simp
next
  case (Suc n)
  then obtain st1 where "st1 \<in> set (m st)" "st' \<in> set (rep_min m n k st1)" by auto
  then show ?case using Suc.IH step trans by blast
qed

lemma rmatch_rel:
  assumes refl: "\<And>st. R st st"
    and trans: "\<And>a b c. R a b \<Longrightarrow> R b c \<Longrightarrow> R a c"
    and char: "\<And>i g. i < length s \<Longrightarrow> R (i, g) (Suc i, g)"
    and grp: "\<And>st st' n. R st st' \<Longrightarrow> R st (fst st', (n, fst st, fst st') # snd st')"
  shows "st' \<in> set (rmatch r ic ml s st) \<Longrightarrow> R st st'"
proof (induction r arbitrary: st st')
  case (Seq a b)
  then obtain st1 where "st1 \<in> set (rmatch a ic ml s st)" "st' \<in> set (rmatch b ic ml s st1)"
    by auto
  then show ?case using Seq.IH trans by blast
next
  case (Alt a b)
  from Alt.prems have "st' \<in> set (rmatch a ic ml s st) \<or> st' \<in> set (rmatch b ic ml s st)"
    by simp
  then show ?case using Alt.IH by blast
next
  case (Rep lo hi r)
  have step: "\<And>st st'. st' \<in> set (rmatch r ic ml s st) \<Longrightarrow> R st st'" using Rep.IH by blast
  have cont: "\<And>st st'. st' \<in> set (rep_greedy (rmatch r ic ml s) (length s - fst st)
                (map_option (\<lambda>h. h - lo) hi) st) \<Longrightarrow> R st st'"
    using rep_greedy_rel[where R=R and m="rmatch r ic ml s"] refl trans step by blast
  from Rep.prems show ?case
    using rep_min_rel[where R=R and m="rmatch r ic ml s" and
        k="\<lambda>st. rep_greedy (rmatch r ic ml s) (length s - fst st) (map_option (\<lambda>h. h - lo) hi) st"]
      trans step cont
    by (simp del: rep_min.simps rep_greedy.simps)
next
  case (Grp n r)
  from Grp.prems obtain st1 where "st1 \<in> set (rmatch r ic ml s st)"
    "st' = (fst st1, (n, fst st, fst st1) # snd st1)" by auto
  then show ?case using grp Grp.IH by blast
qed (auto simp: step_if_def test_if_def refl char split: if_splits)

lemma rmatch_pos:
  assumes "st' \<in> set (rmatch r ic ml s st)"
  shows "fst st \<le> fst st' \<and> (fst st \<le> length s \<longrightarrow> fst st' \<le> length s)"
  by (rule rmatch_rel[where R="\<lambda>a b. fst a \<le> fst b \<and> (fst a \<le> length s \<longrightarrow> fst b \<le> length s)",
        OF _ _ _ _ assms]) auto

lemma rmatch_keys:
  assumes "st' \<in> set (rmatch r ic ml s st)"
  shows "fst ` set (snd st) \<subseteq> fst ` set (snd st')"
  by (rule rmatch_rel[where R="\<lambda>a b. fst ` set (snd a) \<subseteq> fst ` set (snd b)",
        OF _ _ _ _ assms]) auto

lemma rep_greedy_keys:
  assumes "st' \<in> set (rep_greedy (rmatch r ic ml s) fuel hi st)"
  shows "fst ` set (snd st) \<subseteq> fst ` set (snd st')"
  by (rule rep_greedy_rel[where R="\<lambda>a b. fst ` set (snd a) \<subseteq> fst ` set (snd b)"
        and m="rmatch r ic ml s", OF _ _ _ assms]) (auto dest: rmatch_keys)

lemma rep_min_keys:
  assumes "st' \<in> set (rep_min (rmatch r ic ml s) n
            (\<lambda>st. rep_greedy (rmatch r ic ml s) (f st) hi st) st)"
  shows "fst ` set (snd st) \<subseteq> fst ` set (snd st')"
  by (rule rep_min_rel[where R="\<lambda>a b. fst ` set (snd a) \<subseteq> fst ` set (snd b)"
        and m="rmatch r ic ml s", OF _ _ _ assms]) (auto dest: rmatch_keys rep_greedy_keys)

lemma rmatch_sets_grp:
  "sets_grp k r \<Longrightarrow> st' \<in> set (rmatch r ic ml s st) \<Longrightarrow> k \<in> fst ` set (snd st')"
proof (induction r arbitrary: st st')
  case (Seq a b)
  from Seq.prems(2) obtain st1 where s1: "st1 \<in> set (rmatch a ic ml s st)"
    and s2: "st' \<in> set (rmatch b ic ml s st1)" by auto
  show ?case
  proof (cases "sets_grp k a")
    case True
    then have "k \<in> fst ` set (snd st1)" using Seq.IH(1) s1 by blast
    then show ?thesis using rmatch_keys[OF s2] by blast
  next
    case False
    then have "sets_grp k b" using Seq.prems(1) by simp
    then show ?thesis using Seq.IH(2) s2 by blast
  qed
next
  case (Alt a b)
  from Alt.prems(2) have "st' \<in> set (rmatch a ic ml s st) \<or> st' \<in> set (rmatch b ic ml s st)"
    by simp
  moreover from Alt.prems(1) have "sets_grp k a" "sets_grp k b" by simp_all
  ultimately show ?case using Alt.IH by blast
next
  case (Rep lo hi r)
  from Rep.prems(1) obtain n where lo: "lo = Suc n" and sr: "sets_grp k r" by (cases lo) auto
  from Rep.prems(2) obtain st1 where s1: "st1 \<in> set (rmatch r ic ml s st)"
    and s2: "st' \<in> set (rep_min (rmatch r ic ml s) n
       (\<lambda>st. rep_greedy (rmatch r ic ml s) (length s - fst st) (map_option (\<lambda>h. h - lo) hi) st) st1)"
    unfolding lo by auto
  have "k \<in> fst ` set (snd st1)" using Rep.IH sr s1 by blast
  then show ?case using rep_min_keys[OF s2] by blast
next
  case (Grp n r)
  from Grp.prems(2) obtain st1 where s1: "st1 \<in> set (rmatch r ic ml s st)"
    and s2: "st' = (fst st1, (n, fst st, fst st1) # snd st1)" by auto
  show ?case
  proof (cases "n = k")
    case True
    then show ?thesis using s2 by simp
  next
    case False
    then have "sets_grp k r" using Grp.prems(1) by simp
    then have "k \<in> fst ` set (snd st1)" using Grp.IH s1 by blast
    then show ?thesis using s2 by simp
  qed
qed simp_all

lemma first_match_Some:
  assumes "first_match r ic ml s is = Some m"
  shows "\<exists>i st. i \<in> set is \<and> m = (i, fst st, snd st) \<and> st \<in> set (rmatch r ic ml s (i, []))"
  using assms
proof (induction "is")
  case Nil
  then show ?case by simp
next
  case (Cons i "is")
  show ?case
  proof (cases "rmatch r ic ml s (i, [])")
    case Nil
    with Cons show ?thesis by auto
  next
    case (Cons st sts)
    with Cons.prems have "m = (i, fst st, snd st)" by simp
    moreover have "st \<in> set (rmatch r ic ml s (i, []))" using Cons by simp
    ultimately show ?thesis by auto
  qed
qed

lemma search_from_Some:
  assumes "search_from r ic ml s i0 = Some m"
  shows "\<exists>i st. i0 \<le> i \<and> i \<le> length s \<and> m = (i, fst st, snd st) \<and>
           st \<in> set (rmatch r ic ml s (i, []))"
  using first_match_Some[OF assms[unfolded search_from_def]] by auto

lemma re_search_Some:
  assumes "re_search r ic ml s = Some m"
  shows "\<exists>i st. i \<le> length s \<and> m = (i, fst st, snd st) \<and> st \<in> set (rmatch r ic ml s (i, []))"
  using search_from_Some[OF assms[unfolded re_search_def]] by auto

lemma group_participates:
  assumes "re_search r ic ml s = Some m" "sets_grp k r"
  shows "\<exists>g. group s m k = Some g"
proof -
  from re_search_Some[OF assms(1)] obtain i st where
    m: "m = (i, fst st, snd st)" and st: "st \<in> set (rmatch r ic ml s (i, []))" by blast
  from rmatch_sets_grp[OF assms(2) st] have "k \<in> fst ` set (snd st)" .
  then have "map_of (snd st) k \<noteq> None" by (simp add: map_of_eq_None_iff)
  then show ?thesis by (auto simp: group_def m)
qed

lemma group_str_ok:
  assumes "re_search r ic ml s = Some m" "sets_grp k r"
  shows "\<exists>g. group_str s m k = Inr g"
  using group_participates[OF assms] by (auto simp: group_str_def)

lemma sets_grp_patterns:
  "sets_grp 1 inv_re" "sets_grp 1 po_re" "sets_grp 1 id_core_re" "sets_grp 1 vendor_re"
  "sets_grp 2 seller_inline_re"
  by (simp_all add: inv_re_def po_re_def id_core_re_def vendor_re_def seller_inline_re_def id_token_def)

lemma dom_empty_result: "dom empty_result = set FIELDS"
  by (auto simp: empty_result_def FIELDS_def dom_def split: if_splits)

lemma dom_resolve_synonyms:
  "fst ` set syn \<subseteq> dom res \<Longrightarrow> dom (resolve_synonyms m syn res) = dom res"
proof (induction syn arbitrary: res)
  case Nil
  then show ?case by simp
next
  case (Cons a syn)
  obtain std keys where a: "a = (std, keys)" by (cases a)
  define res' where "res' = (case first_present m keys of Some v \<Rightarrow> res(std \<mapsto> v) | None \<Rightarrow> res)"
  have d: "dom res' = dom res" using Cons.prems
    by (auto simp: res'_def a split: option.splits)
  have "dom (resolve_synonyms m syn res') = dom res'"
    using Cons.IH[of res'] Cons.prems d by auto
  then show ?case using d by (simp add: a res'_def)
qed

lemma dom_synonym_stage: "dom (synonym_stage r) = set FIELDS"
  unfolding synonym_stage_def
  by (subst dom_resolve_synonyms) (auto simp: dom_empty_result SYNONYMS_def FIELDS_def)

lemma item_ok: "k \<in> dom res \<Longrightarrow> \<exists>v. item res k = Inr v \<and> res k = Some v"
  by (auto simp: item_def)

lemma fields_mem:
  "''vendor'' \<in> set FIELDS" "''date'' \<in> set FIELDS" "''currency'' \<in> set FIELDS"
  "''total'' \<in> set FIELDS" "''po_number'' \<in> set FIELDS"
  by (simp_all add: FIELDS_def)

lemma dom_upd_field: "dom res = set FIELDS \<Longrightarrow> k \<in> set FIELDS \<Longrightarrow> dom (res(k \<mapsto> v)) = set FIELDS"
  by auto

lemma sanitize_vendor_ok:
  assumes "dom res = set FIELDS"
  shows "\<exists>res'. sanitize_vendor res = Inr res' \<and> dom res' = set FIELDS"
  using item_ok[of "''vendor''" res] assms fields_mem
  by (auto simp: sanitize_vendor_def bnd_def)

lemma sanitize_po_ok:
  assumes "dom res = set FIELDS"
  shows "\<exists>res'. sanitize_po res = Inr res' \<and> dom res' = set FIELDS"
  using item_ok[of "''po_number''" res] assms fields_mem
  by (auto simp: sanitize_po_def bnd_def)

lemma fallback_date_ok:
  assumes "dom res = set FIELDS"
  shows "\<exists>res'. fallback_date raw res = Inr res' \<and> dom res' = set FIELDS"
  using item_ok[of "''date''" res] assms fields_mem
  by (auto simp: fallback_date_def bnd_def split: option.splits)

lemma search_or_cases:
  "search_or a b = Some m \<Longrightarrow> a = Some m \<or> (a = None \<and> b = Some m)"
  by (auto simp: search_or_def split: option.splits)

lemma fallback_po_ok:
  assumes "dom res = set FIELDS"
  shows "\<exists>res'. fallback_po raw res = Inr res' \<and> dom res' = set FIELDS"
proof -
  from item_ok[of "''po_number''" res] assms fields_mem obtain p where
    p: "item res ''po_number'' = Inr p" by auto
  show ?thesis
  proof (cases "p \<noteq> []")
    case True
    then show ?thesis using p assms by (simp add: fallback_po_def bnd_def)
  next
    case False
    note pe = this
    show ?thesis
    proof (cases "search_or (re_search inv_re True False raw) (re_search po_re True False raw)")
      case None
      then show ?thesis using p pe assms by (simp add: fallback_po_def bnd_def)
    next
      case (Some m)
      from search_or_cases[OF Some] obtain g where g: "group_str raw m 1 = Inr g"
        using group_str_ok sets_grp_patterns by blast
      show ?thesis
      proof (cases "re_search id_core_re False False (strip g)")
        case None
        then show ?thesis using p pe Some g assms fields_mem
          by (simp add: fallback_po_def bnd_def Let_def insert_absorb)
      next
        case (Some core)
        then obtain c where "group_str (strip g) core 1 = Inr c"
          using group_str_ok sets_grp_patterns by blast
        then show ?thesis using p pe \<open>search_or _ _ = Some m\<close> g Some assms fields_mem
          by (simp add: fallback_po_def bnd_def Let_def insert_absorb)
      qed
    qed
  qed
qed

lemma fallback_total_ok:
  assumes "dom res = set FIELDS"
  shows "\<exists>res'. fallback_total raw res = Inr res' \<and> dom res' = set FIELDS"
  using item_ok[of "''total''" res] assms fields_mem
  by (auto simp: fallback_total_def bnd_def Let_def index_last_def)

lemma fallback_currency_ok:
  assumes "dom res = set FIELDS"
  shows "\<exists>res'. fallback_currency raw res = Inr res' \<and> dom res' = set FIELDS"
  using item_ok[of "''currency''" res] assms fields_mem
  by (auto simp: fallback_currency_def bnd_def Let_def)

lemma vendor_inline_ok:
  assumes "dom res = set FIELDS"
  shows "\<exists>res'. vendor_inline raw res = Inr res' \<and> dom res' = set FIELDS"
proof (cases "re_search seller_inline_re True True raw")
  case None
  then show ?thesis using assms by (simp add: vendor_inline_def)
next
  case (Some m)
  then obtain g where "group_str raw m 2 = Inr g" using group_str_ok sets_grp_patterns by blast
  then show ?thesis using Some assms fields_mem by (simp add: vendor_inline_def bnd_def insert_absorb)
qed

lemma scan_lines_ok:
  "\<exists>found. scan_lines lines xs = Inr found"
proof (induction xs)
  case Nil
  then show ?case by simp
next
  case (Cons x xs)
  obtain idx line where x: "x = (idx, line)" by (cases x)
  show ?case using Cons.IH by (auto simp: x bnd_def index_def)
qed

lemma vendor_next_line_ok:
  assumes "dom res = set FIELDS"
  shows "\<exists>res'. vendor_next_line raw res = Inr res' \<and> dom res' = set FIELDS"
proof -
  obtain found where "scan_lines (map rstrip (splitlines raw))
      (enumerate 0 (map rstrip (splitlines raw))) = Inr found"
    using scan_lines_ok by blast
  then show ?thesis using item_ok[of "''vendor''" res] assms fields_mem
    by (auto simp: vendor_next_line_def bnd_def Let_def split: option.splits)
qed

lemma vendor_generic_ok:
  assumes "dom res = set FIELDS"
  shows "\<exists>res'. vendor_generic raw res = Inr res' \<and> dom res' = set FIELDS"
proof -
  from item_ok[of "''vendor''" res] assms fields_mem obtain v where
    v: "item res ''vendor'' = Inr v" by auto
  show ?thesis
  proof (cases "re_search vendor_re True False raw")
    case None
    then show ?thesis using v assms by (simp add: vendor_generic_def bnd_def insert_absorb)
  next
    case (Some m)
    then obtain g where "group_str raw m 1 = Inr g" using group_str_ok sets_grp_patterns by blast
    then show ?thesis using v Some assms fields_mem by (simp add: vendor_generic_def bnd_def insert_absorb)
  qed
qed

lemma fallback_vendor_ok:
  assumes "dom res = set FIELDS"
  shows "\<exists>res'. fallback_vendor raw res = Inr res' \<and> dom res' = set FIELDS"
proof -
  from item_ok[of "''vendor''" res] assms fields_mem obtain v where
    v: "item res ''vendor'' = Inr v" by auto
  from vendor_inline_ok[OF assms] obtain r1 where
    r1: "vendor_inline raw res = Inr r1" "dom r1 = set FIELDS" by blast
  from vendor_next_line_ok[OF r1(2)] obtain r2 where
    r2: "vendor_next_line raw r1 = Inr r2" "dom r2 = set FIELDS" by blast
  from vendor_generic_ok[OF r2(2)] obtain r3 where
    r3: "vendor_generic raw r2 = Inr r3" "dom r3 = set FIELDS" by blast
  show ?thesis using v r1 r2 r3 assms by (simp add: fallback_vendor_def bnd_def)
qed

lemma fallbacks_ok:
  assumes "dom res = set FIELDS"
  shows "\<exists>res'. fallbacks raw res = Inr res' \<and> dom res' = set FIELDS"
proof -
  from fallback_date_ok[OF assms] obtain r1 where
    r1: "fallback_date raw res = Inr r1" "dom r1 = set FIELDS" by blast
  from fallback_po_ok[OF r1(2)] obtain r2 where
    r2: "fallback_po raw r1 = Inr r2" "dom r2 = set FIELDS" by blast
  from fallback_total_ok[OF r2(2)] obtain r3 where
    r3: "fallback_total raw r2 = Inr r3" "dom r3 = set FIELDS" by blast
  from fallback_currency_ok[OF r3(2)] obtain r4 where
    r4: "fallback_currency raw r3 = Inr r4" "dom r4 = set FIELDS" by blast
  from fallback_vendor_ok[OF r4(2)] obtain r5 where
    r5: "fallback_vendor raw r4 = Inr r5" "dom r5 = set FIELDS" by blast
  show ?thesis using r1 r2 r3 r4 r5 by (simp add: fallbacks_def bnd_def)
qed

lemma normalize_record_ok:
  "\<exists>c. normalize_record rec = Inr c \<and> dom c = set FIELDS"
proof (cases rec)
  case None
  then show ?thesis by (simp add: normalize_record_def dom_empty_result)
next
  case (Some r)
  show ?thesis
  proof (cases "r = []")
    case True
    then show ?thesis using Some by (simp add: normalize_record_def dom_empty_result)
  next
    case False
    from sanitize_vendor_ok[OF dom_synonym_stage] obtain r1 where
      r1: "sanitize_vendor (synonym_stage r) = Inr r1" "dom r1 = set FIELDS" by blast
    from sanitize_po_ok[OF r1(2)] obtain r2 where
      r2: "sanitize_po r1 = Inr r2" "dom r2 = set FIELDS" by blast
    show ?thesis
    proof (cases "rec_get r ''_raw''")
      case None
      then show ?thesis using Some False r1 r2 by (simp add: normalize_record_def bnd_def)
    next
      case (Some raw)
      from fallbacks_ok[OF r2(2)] obtain r3 where
        "fallbacks raw r2 = Inr r3" "dom r3 = set FIELDS" by blast
      then show ?thesis using Some \<open>rec = Some r\<close> False r1 r2
        by (simp add: normalize_record_def bnd_def)
    qed
  qed
qed

section \<open>The comparison loop\<close>

lemma resolve_ok: "\<exists>v. resolve rec f n = Inr v"
proof -
  have "\<exists>v. (case re_search id_core_re False False s of None \<Rightarrow> Inr [] | Some core \<Rightarrow> group_str s core 1)
        = Inr v" for s
    using group_str_ok[OF _ sets_grp_patterns(3)] by (cases "re_search id_core_re False False s") auto
  then show ?thesis
    by (auto simp: resolve_def Let_def split: option.splits)
qed

lemma compare_loop_ok: "\<exists>out. compare_loop inv_rec po_rec inv_n po_n fs acc = Inr out"
proof (induction fs arbitrary: acc)
  case Nil
  then show ?case by simp
next
  case (Cons f fs)
  obtain iv pv where "resolve inv_rec f inv_n = Inr iv" "resolve po_rec f po_n = Inr pv"
    using resolve_ok by blast
  then show ?case using Cons.IH by (auto simp: bnd_def Let_def)
qed

lemma compare_loop_keeps:
  "compare_loop inv_rec po_rec inv_n po_n fs acc = Inr out \<Longrightarrow> set (fst acc) \<subseteq> set (fst out)"
proof (induction fs arbitrary: acc)
  case Nil
  then show ?case by simp
next
  case (Cons f fs)
  obtain iv pv where r: "resolve inv_rec f inv_n = Inr iv" "resolve po_rec f po_n = Inr pv"
    using resolve_ok by blast
  show ?case
  proof (cases "iv = [] \<and> pv = []")
    case True
    then show ?thesis using Cons r by (simp add: bnd_def)
  next
    case False
    define acc' where "acc' = (fst acc @ [\<lparr>field = f, invoice = iv, po = pv, status = field_status f iv pv\<rparr>],
               if field_status f iv pv = Mismatch then snd acc + 1 else snd acc)"
    have "compare_loop inv_rec po_rec inv_n po_n fs acc' = Inr out"
      using Cons.prems r False by (auto simp: bnd_def Let_def acc'_def)
    from Cons.IH[OF this] show ?thesis by (auto simp: acc'_def)
  qed
qed

lemma compare_loop_row:
  assumes "f \<in> set fs" "resolve inv_rec f inv_n = Inr iv" "resolve po_rec f po_n = Inr pv"
    and "iv \<noteq> [] \<or> pv \<noteq> []"
    and "compare_loop inv_rec po_rec inv_n po_n fs acc = Inr out"
  shows "\<lparr>field = f, invoice = iv, po = pv, status = field_status f iv pv\<rparr> \<in> set (fst out)"
  using assms(1,5)
proof (induction fs arbitrary: acc)
  case Nil
  then show ?case by simp
next
  case (Cons g fs)
  obtain iv' pv' where r: "resolve inv_rec g inv_n = Inr iv'" "resolve po_rec g po_n = Inr pv'"
    using resolve_ok by blast
  define acc' where "acc' = (if iv' = [] \<and> pv' = [] then acc else
     (fst acc @ [\<lparr>field = g, invoice = iv', po = pv', status = field_status g iv' pv'\<rparr>],
               if field_status g iv' pv' = Mismatch then snd acc + 1 else snd acc))"
  have step: "compare_loop inv_rec po_rec inv_n po_n fs acc' = Inr out"
    using Cons.prems(2) r by (auto simp: bnd_def Let_def acc'_def)
  show ?case
  proof (cases "g = f")
    case True
    with r assms(2,3) have "iv' = iv" "pv' = pv" by auto
    then have "\<lparr>field = f, invoice = iv, po = pv, status = field_status f iv pv\<rparr> \<in> set (fst acc')"
      using assms(4) True by (auto simp: acc'_def)
    then show ?thesis using compare_loop_keeps[OF step] by blast
  next
    case False
    then have "f \<in> set fs" using Cons.prems(1) by simp
    from Cons.IH[OF this step] show ?thesis .
  qed
qed

lemma compare_loop_sound:
  assumes "compare_loop inv_rec po_rec inv_n po_n fs acc = Inr out" "r \<in> set (fst out)"
  shows "r \<in> set (fst acc) \<or>
    (\<exists>f iv pv. f \<in> set fs \<and> resolve inv_rec f inv_n = Inr iv \<and> resolve po_rec f po_n = Inr pv \<and>
       (iv \<noteq> [] \<or> pv \<noteq> []) \<and>
       r = \<lparr>field = f, invoice = iv, po = pv, status = field_status f iv pv\<rparr>)"
  using assms
proof (induction fs arbitrary: acc)
  case Nil
  then show ?case by simp
next
  case (Cons g fs)
  obtain iv' pv' where r: "resolve inv_rec g inv_n = Inr iv'" "resolve po_rec g po_n = Inr pv'"
    using resolve_ok by blast
  define acc' where "acc' = (if iv' = [] \<and> pv' = [] then acc else
     (fst acc @ [\<lparr>field = g, invoice = iv', po = pv', status = field_status g iv' pv'\<rparr>],
               if field_status g iv' pv' = Mismatch then snd acc + 1 else snd acc))"
  have step: "compare_loop inv_rec po_rec inv_n po_n fs acc' = Inr out"
    using Cons.prems(1) r by (auto simp: bnd_def Let_def acc'_def)
  from Cons.IH[OF step Cons.prems(2)] consider "r \<in> set (fst acc')"
    | "\<exists>f iv pv. f \<in> set fs \<and> resolve inv_rec f inv_n = Inr iv \<and> resolve po_rec f po_n = Inr pv \<and>
       (iv \<noteq> [] \<or> pv \<noteq> []) \<and>
       r = \<lparr>field = f, invoice = iv, po = pv, status = field_status f iv pv\<rparr>" by blast
  then show ?case
  proof cases
    case 1
    then show ?thesis using r by (auto simp: acc'_def split: if_splits)
  next
    case 2
    then show ?thesis by auto
  qed
qed

lemma set_candidates: "set (sorted_list_of_set (candidate_fields inv_rec po_rec)) = candidate_fields inv_rec po_rec"
  by (simp add: candidate_fields_def)

lemma fields_candidates: "f \<in> set FIELDS \<Longrightarrow> f \<in> candidate_fields inv_rec po_rec"
  by (auto simp: candidate_fields_def)

lemma compare_records_ok:
  "\<exists>inv_n po_n out. normalize_record inv_rec = Inr inv_n \<and> normalize_record po_rec = Inr po_n \<and>
     compare_loop inv_rec po_rec inv_n po_n (sorted_list_of_set (candidate_fields inv_rec po_rec)) ([], 0) = Inr out \<and>
     compare_records inv_rec po_rec = Inr (fst out, if fst out = [] then 0 else snd out)"
proof -
  obtain inv_n po_n where n: "normalize_record inv_rec = Inr inv_n" "normalize_record po_rec = Inr po_n"
    using normalize_record_ok by blast
  obtain out where o: "compare_loop inv_rec po_rec inv_n po_n
      (sorted_list_of_set (candidate_fields inv_rec po_rec)) ([], 0) = Inr out"
    using compare_loop_ok by blast
  have "compare_records inv_rec po_rec = Inr (fst out, if fst out = [] then 0 else snd out)"
    using n o by (cases out) (auto simp: compare_records_def bnd_def)
  then show ?thesis using n o by blast
qed

lemma compare_records_row:
  assumes "normalize_record inv_rec = Inr inv_n" "normalize_record po_rec = Inr po_n"
    and "f \<in> candidate_fields inv_rec po_rec"
    and "resolve inv_rec f inv_n = Inr iv" "resolve po_rec f po_n = Inr pv"
    and "iv \<noteq> [] \<or> pv \<noteq> []"
  shows "\<exists>rows n. compare_records inv_rec po_rec = Inr (rows, n) \<and>
           \<lparr>field = f, invoice = iv, po = pv, status = field_status f iv pv\<rparr> \<in> set rows"
proof -
  from compare_records_ok[of inv_rec po_rec] assms(1,2) obtain out where
    o: "compare_loop inv_rec po_rec inv_n po_n (sorted_list_of_set (candidate_fields inv_rec po_rec)) ([], 0) = Inr out"
    and c: "compare_records inv_rec po_rec = Inr (fst out, if fst out = [] then 0 else snd out)"
    by auto
  have "f \<in> set (sorted_list_of_set (candidate_fields inv_rec po_rec))"
    using assms(3) set_candidates by simp
  from compare_loop_row[OF this assms(4,5,6) o] c show ?thesis by blast
qed

lemma compare_records_sound:
  assumes "compare_records inv_rec po_rec = Inr (rows, n)" "r \<in> set rows"
  shows "\<exists>inv_n po_n f iv pv. normalize_record inv_rec = Inr inv_n \<and> normalize_record po_rec = Inr po_n \<and>
     f \<in> candidate_fields inv_rec po_rec \<and>
     resolve inv_rec f inv_n = Inr iv \<and> resolve po_rec f po_n = Inr pv \<and> (iv \<noteq> [] \<or> pv \<noteq> []) \<and>
     r = \<lparr>field = f, invoice = iv, po = pv, status = field_status f iv pv\<rparr>"
proof -
  from compare_records_ok[of inv_rec po_rec] obtain inv_n po_n out where
    n: "normalize_record inv_rec = Inr inv_n" "normalize_record po_rec = Inr po_n" and
    o: "compare_loop inv_rec po_rec inv_n po_n (sorted_list_of_set (candidate_fields inv_rec po_rec)) ([], 0) = Inr out"
    and c: "compare_records inv_rec po_rec = Inr (fst out, if fst out = [] then 0 else snd out)"
    by blast
  from c assms have "r \<in> set (fst out)" by simp
  from compare_loop_sound[OF o this] n set_candidates[of inv_rec po_rec] show ?thesis by auto
qed

lemma resolved_row:
  assumes "f \<in> candidate_fields inv_rec po_rec"
    and "resolved inv_rec f = Inr iv" "resolved po_rec f = Inr pv" "iv \<noteq> [] \<or> pv \<noteq> []"
  shows "\<exists>rows n. compare_records inv_rec po_rec = Inr (rows, n) \<and>
           \<lparr>field = f, invoice = iv, po = pv, status = field_status f iv pv\<rparr> \<in> set rows \<and>
           (\<forall>r \<in> set rows. field r = f \<longrightarrow> r = \<lparr>field = f, invoice = iv, po = pv, status = field_status f iv pv\<rparr>)"
proof -
  obtain inv_n po_n where n: "normalize_record inv_rec = Inr inv_n" "normalize_record po_rec = Inr po_n"
    using normalize_record_ok by blast
  with assms(2,3) have r: "resolve inv_rec f inv_n = Inr iv" "resolve po_rec f po_n = Inr pv"
    by (simp_all add: resolved_def bnd_def)
  from compare_records_row[OF n assms(1) r assms(4)] obtain rows k where
    c: "compare_records inv_rec po_rec = Inr (rows, k)"
    and m: "\<lparr>field = f, invoice = iv, po = pv, status = field_status f iv pv\<rparr> \<in> set rows" by blast
  have "r' = \<lparr>field = f, invoice = iv, po = pv, status = field_status f iv pv\<rparr>"
    if "r' \<in> set rows" "field r' = f" for r'
  proof -
    from compare_records_sound[OF c that(1)] obtain a b g iv' pv' where
      s: "normalize_record inv_rec = Inr a" "normalize_record po_rec = Inr b"
         "resolve inv_rec g a = Inr iv'" "resolve po_rec g b = Inr pv'"
         "r' = \<lparr>field = g, invoice = iv', po = pv', status = field_status g iv' pv'\<rparr>" by blast
    from s(5) that(2) have "g = f" by simp
    with s n r show ?thesis by simp
  qed
  with c m show ?thesis by blast
qed

lemma resolved_skip:
  assumes "resolved inv_rec f = Inr []" "resolved po_rec f = Inr []"
    and "compare_records inv_rec po_rec = Inr (rows, n)"
  shows "\<forall>r \<in> set rows. field r \<noteq> f"
proof
  fix r' assume "r' \<in> set rows"
  from compare_records_sound[OF assms(3) this] obtain a b g iv' pv' where
    s: "normalize_record inv_rec = Inr a" "normalize_record po_rec = Inr b"
       "resolve inv_rec g a = Inr iv'" "resolve po_rec g b = Inr pv'" "iv' \<noteq> [] \<or> pv' \<noteq> []"
       "r' = \<lparr>field = g, invoice = iv', po = pv', status = field_status g iv' pv'\<rparr>" by blast
  show "field r' \<noteq> f"
  proof
    assume "field r' = f"
    with s(6) have "g = f" by simp
    with s assms(1,2) show False by (simp add: resolved_def bnd_def)
  qed
qed

lemma id_core_C2: "id_core ''PO-000123456'' = Some ''000123456''" "id_core ''123456'' = Some ''123456''"
  by code_simp+

lemma field_status_C2: "field_status ''po_number'' ''PO-000123456'' ''123456'' = Mismatch"
  by code_simp

lemma resolved_C2:
  "resolved C2_invoice ''po_number'' = Inr ''PO-000123456''"
  "resolved C2_po ''po_number'' = Inr ''123456''"
  by code_simp+

lemma compare_C2: "compare_records C2_invoice C2_po =
    Inr ([\<lparr>field = ''po_number'', invoice = ''PO-000123456'', po = ''123456'', status = Mismatch\<rparr>], 1)"
  by code_simp

lemma resolved_row_status:
  assumes "f \<in> candidate_fields inv_rec po_rec"
    and "resolved inv_rec f = Inr iv" "resolved po_rec f = Inr pv" "iv \<noteq> [] \<or> pv \<noteq> []"
    and "field_status f iv pv = st"
  shows "\<exists>rows n. compare_records inv_rec po_rec = Inr (rows, n) \<and>
           \<lparr>field = f, invoice = iv, po = pv, status = st\<rparr> \<in> set rows \<and>
           (\<forall>r \<in> set rows. field r = f \<longrightarrow> invoice r = iv \<and> po r = pv \<and> status r = st)"
proof -
  from resolved_row[OF assms(1-4)] obtain rows n where
    c: "compare_records inv_rec po_rec = Inr (rows, n)" and
    m: "\<lparr>field = f, invoice = iv, po = pv, status = field_status f iv pv\<rparr> \<in> set rows" and
    u: "\<forall>r \<in> set rows. field r = f \<longrightarrow>
       r = \<lparr>field = f, invoice = iv, po = pv, status = field_status f iv pv\<rparr>"
    by blast
  have u': "\<forall>r \<in> set rows. field r = f \<longrightarrow> invoice r = iv \<and> po r = pv \<and> status r = st"
  proof (intro ballI impI)
    fix r assume "r \<in> set rows" "field r = f"
    with u have "r = \<lparr>field = f, invoice = iv, po = pv, status = field_status f iv pv\<rparr>" by blast
    then have "invoice r = iv" "po r = pv" "status r = field_status f iv pv" by simp_all
    then show "invoice r = iv \<and> po r = pv \<and> status r = st" using assms(5) by simp
  qed
  from m assms(5) have "\<lparr>field = f, invoice = iv, po = pv, status = st\<rparr> \<in> set rows" by simp
  with c u' show ?thesis by blast
qed

lemma canonical_candidates:
  "''vendor'' \<in> candidate_fields inv_rec po_rec" "''date'' \<in> candidate_fields inv_rec po_rec"
  "''currency'' \<in> candidate_fields inv_rec po_rec" "''total'' \<in> candidate_fields inv_rec po_rec"
  "''po_number'' \<in> candidate_fields inv_rec po_rec"
  by (rule fields_candidates, simp add: FIELDS_def)+

lemma resolved_C10:
  "resolved C10_invoice ''vendor'' = Inr ''Inc.''" "resolved C10_po ''vendor'' = Inr ''Acme''"
  by code_simp+

lemma normalize_company_Inc: "normalize_company (lower (clean ''Inc.'')) = []"
  by code_simp

lemma field_status_vendor_missing:
  assumes "normalize_company (lower (clean iv)) = [] \<or> normalize_company (lower (clean pv)) = []"
  shows "field_status ''vendor'' iv pv = Missing"
proof -
  have "field_status ''vendor'' iv pv =
      text_status (normalize_company (lower (clean iv))) (normalize_company (lower (clean pv)))"
    by (simp add: field_status_def Let_def id_fields_def)
  then show ?thesis using assms by (auto simp: text_status_def)
qed

lemma py_float_eval:
  assumes "s \<noteq> ''inf''" "is_decimal s" "decimal_value s = x" "round_double x = Fin v"
  shows "py_float s = Some (Fin v)"
  using assms by (simp add: py_float_def)

lemma fmt_2f_eval:
  assumes "0 \<le> v" "\<bar>v * 100 - of_int (int n)\<bar> < 1 / 2"
  shows "fmt_2f (Fin v) = show_nat (n div 100) @ ''.'' @ [digit_char (n div 10), digit_char n]"
proof -
  have "round_half_even (\<bar>v\<bar> * 100) = int n"
    using round_half_even_nearest[OF assms(2)] assms(1) by simp
  then show ?thesis using assms(1) by (simp add: fmt_2f_def Let_def)
qed

lemma normalize_amount_eval:
  assumes "text \<noteq> []"
    and "re_sub not_amount_re False False [] (replace ''usd'' [] (replace ''USD'' [] (replace '','' [] text))) = s"
    and "py_float s = Some (Fin v)" "0 \<le> v" "\<bar>v * 100 - of_int (int n)\<bar> < 1 / 2"
  shows "normalize_amount text = show_nat (n div 100) @ ''.'' @ [digit_char (n div 10), digit_char n]"
  using assms(1,2,3) fmt_2f_eval[OF assms(4,5)] by (simp add: normalize_amount_def Let_def)

lemma total_status_missing:
  "normalize_amount iv = [] \<or> normalize_amount pv = [] \<Longrightarrow> total_status iv pv = Missing"
  by (auto simp: total_status_def Let_def)

lemma total_status_numbers:
  assumes "normalize_amount iv \<noteq> []" "normalize_amount pv \<noteq> []"
  shows "\<exists>a b. py_float (normalize_amount iv) = Some a \<and> py_float (normalize_amount pv) = Some b \<and>
    total_status iv pv = (if fl_less (fl_abs (fl_sub a b)) (round_double (1 / 100)) then Match else Mismatch)"
proof -
  from normalize_amount_parses[OF assms(1)] obtain a where a: "py_float (normalize_amount iv) = Some a"
    by blast
  from normalize_amount_parses[OF assms(2)] obtain b where b: "py_float (normalize_amount pv) = Some b"
    by blast
  show ?thesis using a b assms by (simp add: total_status_def Let_def)
qed

lemma field_status_total: "field_status ''total'' iv pv = total_status iv pv"
  by (simp add: field_status_def)

lemma total_status_eval:
  assumes "normalize_amount iv = ni" "normalize_amount pv = np" "ni \<noteq> []" "np \<noteq> []"
    and "py_float ni = Some a" "py_float np = Some b"
  shows "total_status iv pv = (if fl_less (fl_abs (fl_sub a b)) (round_double (1 / 100)) then Match else Mismatch)"
  using assms by (simp add: total_status_def Let_def)

lemma strip_006: "re_sub not_amount_re False False [] (replace ''usd'' [] (replace ''USD'' [] (replace '','' [] ''0.06''))) = ''0.06''"
  by code_simp

lemma dec_006: "is_decimal ''0.06''" "decimal_value ''0.06'' = 3 / 50"
  by code_simp+

lemma rd_006: "round_double (3 / 50) = Fin (1080863910568919 / 18014398509481984)"
  using round_double_is[where k="-5" and x="3 / 50" and n="8646911284551352" and e="-57"]
  by (simp add: pow2_def)

lemma float_006: "py_float ''0.06'' = Some (Fin (1080863910568919 / 18014398509481984))"
  using py_float_eval[OF _ dec_006 rd_006] by simp

lemma digits_006: "show_nat (6 div 100) @ ''.'' @ [digit_char (6 div 10), digit_char 6] = ''0.06''"
  by code_simp

lemma amount_006: "normalize_amount ''0.06'' = ''0.06''"
  using normalize_amount_eval[OF _ strip_006 float_006, where n=6] digits_006 by simp

lemma strip_005: "re_sub not_amount_re False False [] (replace ''usd'' [] (replace ''USD'' [] (replace '','' [] ''0.05''))) = ''0.05''"
  by code_simp

lemma dec_005: "is_decimal ''0.05''" "decimal_value ''0.05'' = 1 / 20"
  by code_simp+

lemma rd_005: "round_double (1 / 20) = Fin (3602879701896397 / 72057594037927936)"
  using round_double_is[where k="-5" and x="1 / 20" and n="7205759403792794" and e="-57"]
  by (simp add: pow2_def)

lemma float_005: "py_float ''0.05'' = Some (Fin (3602879701896397 / 72057594037927936))"
  using py_float_eval[OF _ dec_005 rd_005] by simp

lemma digits_005: "show_nat (5 div 100) @ ''.'' @ [digit_char (5 div 10), digit_char 5] = ''0.05''"
  by code_simp

lemma amount_005: "normalize_amount ''0.05'' = ''0.05''"
  using normalize_amount_eval[OF _ strip_005 float_005, where n=5] digits_005 by simp

lemma rd_diff_006_005: "round_double (720575940379279 / 72057594037927936) = Fin (720575940379279 / 72057594037927936)"
  using round_double_is[where k="-7" and x="720575940379279 / 72057594037927936" and n="5764607523034232" and e="-59"]
  by (simp add: pow2_def)

lemma rd_001: "round_double (1 / 100) = Fin (5764607523034235 / 576460752303423488)"
  using round_double_is[where k="-7" and x="1 / 100" and n="5764607523034235" and e="-59"]
  by (simp add: pow2_def)

lemma total_status_006_005: "total_status ''0.06'' ''0.05'' = Match"
proof -
  have "fl_less (fl_abs (fl_sub (Fin (1080863910568919 / 18014398509481984)) (Fin (3602879701896397 / 72057594037927936)))) (round_double (1 / 100))"
    using rd_diff_006_005 rd_001 by simp
  then show ?thesis
    using total_status_eval[OF amount_006 amount_005 _ _ float_006 float_005] by simp
qed

lemma show_nat_small: "n < 10 \<Longrightarrow> show_nat n = [digit_char n]"
  by (simp add: show_nat.simps[of n])

lemma show_nat_big: "10 \<le> n \<Longrightarrow> show_nat n = show_nat (n div 10) @ [digit_char n]"
  by (simp add: show_nat.simps[of n])

lemma strip_1200a: "re_sub not_amount_re False False [] (replace ''usd'' [] (replace ''USD'' [] (replace '','' [] ''$1,200.00''))) = ''1200.00''"
  by code_simp

lemma dec_1200a: "is_decimal ''1200.00''" "decimal_value ''1200.00'' = 1200"
  by (simp_all add: is_decimal_def decimal_value_def nat_of_digits_def digit_val_def is_digit_def Let_def)

lemma rd_1200a: "round_double (1200) = Fin (1200)"
  using round_double_is[where k="10" and x="1200" and n="5277655813324800" and e="-42"]
  by (simp add: pow2_def)

lemma float_1200a: "py_float ''1200.00'' = Some (Fin (1200))"
  using py_float_eval[OF _ dec_1200a rd_1200a] by simp

lemma digits_1200a: "show_nat (120000 div 100) @ ''.'' @ [digit_char (120000 div 10), digit_char 120000] = ''1200.00''"
  by (simp add: show_nat_small show_nat_big digit_char_def)

lemma amount_1200a: "normalize_amount ''$1,200.00'' = ''1200.00''"
  using normalize_amount_eval[OF _ strip_1200a float_1200a, where n=120000] digits_1200a by simp

lemma strip_1200b: "re_sub not_amount_re False False [] (replace ''usd'' [] (replace ''USD'' [] (replace '','' [] ''1200.00''))) = ''1200.00''"
  by code_simp

lemma dec_1200b: "is_decimal ''1200.00''" "decimal_value ''1200.00'' = 1200"
  by (simp_all add: is_decimal_def decimal_value_def nat_of_digits_def digit_val_def is_digit_def Let_def)

lemma rd_1200b: "round_double (1200) = Fin (1200)"
  using round_double_is[where k="10" and x="1200" and n="5277655813324800" and e="-42"]
  by (simp add: pow2_def)

lemma float_1200b: "py_float ''1200.00'' = Some (Fin (1200))"
  using py_float_eval[OF _ dec_1200b rd_1200b] by simp

lemma digits_1200b: "show_nat (120000 div 100) @ ''.'' @ [digit_char (120000 div 10), digit_char 120000] = ''1200.00''"
  by (simp add: show_nat_small show_nat_big digit_char_def)

lemma amount_1200b: "normalize_amount ''1200.00'' = ''1200.00''"
  using normalize_amount_eval[OF _ strip_1200b float_1200b, where n=120000] digits_1200b by simp

lemma round_double_zero: "round_double 0 = Fin 0"
  by (simp add: round_double_def)

lemma total_status_1200: "total_status ''$1,200.00'' ''1200.00'' = Match"
proof -
  have "fl_less (fl_abs (fl_sub (Fin 1200) (Fin 1200))) (round_double (1 / 100))"
    using rd_001 round_double_zero by simp
  then show ?thesis
    using total_status_eval[OF amount_1200a amount_1200b _ _ float_1200b float_1200b] by simp
qed

lemma candidates_C1:
  "sorted_list_of_set (candidate_fields C1_invoice C1_po) =
     [''amount due'', ''currency'', ''date'', ''invoice number'', ''po'', ''po_number'', ''seller'',
      ''total'', ''vendor'']"
  by code_simp

lemma resolved_C1_invoice:
  "resolved C1_invoice ''amount due'' = Inr []" "resolved C1_invoice ''currency'' = Inr []"
  "resolved C1_invoice ''date'' = Inr []" "resolved C1_invoice ''invoice number'' = Inr []"
  "resolved C1_invoice ''po'' = Inr []" "resolved C1_invoice ''po_number'' = Inr ''INV-000987654''"
  "resolved C1_invoice ''seller'' = Inr []" "resolved C1_invoice ''total'' = Inr ''$1,200.00''"
  "resolved C1_invoice ''vendor'' = Inr ''Acme Inc.''"
  by code_simp+

lemma resolved_C1_po:
  "resolved C1_po ''amount due'' = Inr ''1200.00''" "resolved C1_po ''currency'' = Inr []"
  "resolved C1_po ''date'' = Inr []" "resolved C1_po ''invoice number'' = Inr []"
  "resolved C1_po ''po'' = Inr ''987654''" "resolved C1_po ''po_number'' = Inr ''987654''"
  "resolved C1_po ''seller'' = Inr []" "resolved C1_po ''total'' = Inr ''1200.00''"
  "resolved C1_po ''vendor'' = Inr ''ACME''"
  by code_simp+

lemma field_status_C1:
  "field_status ''amount due'' [] ''1200.00'' = Missing"
  "field_status ''po'' [] ''987654'' = Missing"
  "field_status ''po_number'' ''INV-000987654'' ''987654'' = Mismatch"
  "field_status ''vendor'' ''Acme Inc.'' ''ACME'' = Match"
  by code_simp+

lemma id_core_C1: "id_core ''INV-000987654'' = Some ''000987654''" "id_core ''987654'' = Some ''987654''"
  by code_simp+

lemma resolved_resolve:
  "resolved rec f = Inr v \<Longrightarrow> normalize_record rec = Inr n \<Longrightarrow> resolve rec f n = Inr v"
  by (simp add: resolved_def bnd_def)

lemma compare_C1:
  "compare_records C1_invoice C1_po =
     Inr ([\<lparr>field = ''amount due'', invoice = [], po = ''1200.00'', status = Missing\<rparr>,
           \<lparr>field = ''po'', invoice = [], po = ''987654'', status = Missing\<rparr>,
           \<lparr>field = ''po_number'', invoice = ''INV-000987654'', po = ''987654'', status = Mismatch\<rparr>,
           \<lparr>field = ''total'', invoice = ''$1,200.00'', po = ''1200.00'', status = Match\<rparr>,
           \<lparr>field = ''vendor'', invoice = ''Acme Inc.'', po = ''ACME'', status = Match\<rparr>], 1)"
proof -
  obtain a b where n: "normalize_record C1_invoice = Inr a" "normalize_record C1_po = Inr b"
    using normalize_record_ok by blast
  note ri = resolved_C1_invoice[THEN resolved_resolve, OF n(1)]
  note rp = resolved_C1_po[THEN resolved_resolve, OF n(2)]
  show ?thesis
    by (simp add: compare_records_def n bnd_def candidates_C1 ri rp field_status_C1
        field_status_total total_status_1200)
qed

lemma candidates_C7:
  "sorted_list_of_set (candidate_fields C7_invoice C7_po) =
     [''currency'', ''date'', ''po_number'', ''total'', ''vendor'']"
  by code_simp

lemma resolved_C7_invoice:
  "resolved C7_invoice ''currency'' = Inr []" "resolved C7_invoice ''date'' = Inr []"
  "resolved C7_invoice ''po_number'' = Inr []" "resolved C7_invoice ''total'' = Inr ''0.06''"
  "resolved C7_invoice ''vendor'' = Inr []"
  by code_simp+

lemma resolved_C7_po:
  "resolved C7_po ''currency'' = Inr []" "resolved C7_po ''date'' = Inr []"
  "resolved C7_po ''po_number'' = Inr []" "resolved C7_po ''total'' = Inr ''0.05''"
  "resolved C7_po ''vendor'' = Inr []"
  by code_simp+

lemma compare_C7:
  "compare_records C7_invoice C7_po =
     Inr ([\<lparr>field = ''total'', invoice = ''0.06'', po = ''0.05'', status = Match\<rparr>], 0)"
proof -
  obtain a b where n: "normalize_record C7_invoice = Inr a" "normalize_record C7_po = Inr b"
    using normalize_record_ok by blast
  note ri = resolved_C7_invoice[THEN resolved_resolve, OF n(1)]
  note rp = resolved_C7_po[THEN resolved_resolve, OF n(2)]
  show ?thesis
    by (simp add: compare_records_def n bnd_def candidates_C7 ri rp field_status_total
        total_status_006_005)
qed

lemma decimal_gap_C7: "\<bar>decimal_value ''0.06'' - decimal_value ''0.05''\<bar> = 1 / 100"
  by (simp add: dec_006 dec_005)

lemma strip_c002: "re_sub not_amount_re False False [] (replace ''usd'' [] (replace ''USD'' [] (replace '','' [] ''0.02''))) = ''0.02''"
  by code_simp

lemma dec_c002: "is_decimal ''0.02''" "decimal_value ''0.02'' = 1 / 50"
  by (simp_all add: is_decimal_def decimal_value_def nat_of_digits_def digit_val_def is_digit_def Let_def)

lemma rd_c002: "round_double (1 / 50) = Fin (5764607523034235 / 288230376151711744)"
  using round_double_is[where k="-6" and x="1 / 50" and n="5764607523034235" and e="-58"]
  by (simp add: pow2_def)

lemma float_c002: "py_float ''0.02'' = Some (Fin (5764607523034235 / 288230376151711744))"
  using py_float_eval[OF _ dec_c002 rd_c002] by simp

lemma digits_c002: "show_nat (2 div 100) @ ''.'' @ [digit_char (2 div 10), digit_char 2] = ''0.02''"
  by (simp add: show_nat_small show_nat_big digit_char_def)

lemma amount_c002: "normalize_amount ''0.02'' = ''0.02''"
  using normalize_amount_eval[OF _ strip_c002 float_c002, where n=2] digits_c002 by simp

lemma strip_c001: "re_sub not_amount_re False False [] (replace ''usd'' [] (replace ''USD'' [] (replace '','' [] ''0.01''))) = ''0.01''"
  by code_simp

lemma dec_c001: "is_decimal ''0.01''" "decimal_value ''0.01'' = 1 / 100"
  by (simp_all add: is_decimal_def decimal_value_def nat_of_digits_def digit_val_def is_digit_def Let_def)

lemma rd_c001: "round_double (1 / 100) = Fin (5764607523034235 / 576460752303423488)"
  using round_double_is[where k="-7" and x="1 / 100" and n="5764607523034235" and e="-59"]
  by (simp add: pow2_def)

lemma float_c001: "py_float ''0.01'' = Some (Fin (5764607523034235 / 576460752303423488))"
  using py_float_eval[OF _ dec_c001 rd_c001] by simp

lemma digits_c001: "show_nat (1 div 100) @ ''.'' @ [digit_char (1 div 10), digit_char 1] = ''0.01''"
  by (simp add: show_nat_small show_nat_big digit_char_def)

lemma amount_c001: "normalize_amount ''0.01'' = ''0.01''"
  using normalize_amount_eval[OF _ strip_c001 float_c001, where n=1] digits_c001 by simp

lemma rd_diff_c002_c001: "round_double (5764607523034235 / 576460752303423488) = Fin (5764607523034235 / 576460752303423488)"
  using round_double_is[where k="-7" and x="5764607523034235 / 576460752303423488" and n="5764607523034235" and e="-59"]
  by (simp add: pow2_def)

lemma total_status_c002_c001: "total_status ''0.02'' ''0.01'' = Mismatch"
proof -
  have "\<not> fl_less (fl_abs (fl_sub (Fin (5764607523034235 / 288230376151711744)) (Fin (5764607523034235 / 576460752303423488)))) (round_double (1 / 100))"
    using rd_diff_c002_c001 rd_001 by simp
  then show ?thesis
    using total_status_eval[OF amount_c002 amount_c001 _ _ float_c002 float_c001] by simp
qed

lemma decimal_gap_c002_c001: "\<bar>decimal_value ''0.02'' - decimal_value ''0.01''\<bar> = 1 / 100"
  by (simp add: dec_c002 dec_c001)

lemma lower_map_fold:
  assumes "\<forall>kv \<in> set r. lower (strip (fst kv)) = fst kv" "distinct (map fst r)"
  shows "fold (\<lambda>kv m. case snd kv of None \<Rightarrow> m | Some v \<Rightarrow> m(lower (strip (fst kv)) \<mapsto> v)) r m k =
     (case map_of r k of None \<Rightarrow> m k | Some None \<Rightarrow> m k | Some (Some v) \<Rightarrow> Some v)"
  using assms
proof (induction r arbitrary: m)
  case Nil
  then show ?case by simp
next
  case (Cons kv r)
  obtain k' v' where kv: "kv = (k', v')" by (cases kv)
  from Cons.prems have c: "lower (strip k') = k'" and d: "k' \<notin> fst ` set r"
    and r: "\<forall>kv \<in> set r. lower (strip (fst kv)) = fst kv" "distinct (map fst r)"
    by (auto simp: kv)
  have n: "map_of r k' = None" using d by (simp add: map_of_eq_None_iff)
  show ?case
    using Cons.IH[OF r] n c by (cases v') (auto simp: kv split: option.splits)
qed

lemma lower_map_clean:
  assumes "\<forall>kv \<in> set r. lower (strip (fst kv)) = fst kv" "distinct (map fst r)"
  shows "lower_map r k = rec_get r k"
  unfolding lower_map_def rec_get_def lower_map_fold[OF assms]
  by (auto split: option.splits)

lemma canonical_keys_clean:
  "lower (strip ''vendor'') = ''vendor''" "lower (strip ''date'') = ''date''"
  "lower (strip ''currency'') = ''currency''" "lower (strip ''total'') = ''total''"
  "lower (strip ''po_number'') = ''po_number''"
  by code_simp+

lemma canonical_rec_get:
  assumes "distinct (map fst r)" "set r = canonical_items v dt cu t p"
  shows "rec_get r ''vendor'' = Some v" "rec_get r ''date'' = Some dt"
    "rec_get r ''currency'' = Some cu" "rec_get r ''total'' = Some t"
    "rec_get r ''po_number'' = Some p"
    "k \<notin> {''vendor'', ''date'', ''currency'', ''total'', ''po_number''} \<Longrightarrow> rec_get r k = None"
proof -
  have m: "(k', x) \<in> set r \<Longrightarrow> map_of r k' = Some x" for k' x
    using assms(1) by simp
  show "rec_get r ''vendor'' = Some v" "rec_get r ''date'' = Some dt"
    "rec_get r ''currency'' = Some cu" "rec_get r ''total'' = Some t"
    "rec_get r ''po_number'' = Some p"
    using m assms(2) by (simp_all add: rec_get_def canonical_items_def)
  assume "k \<notin> {''vendor'', ''date'', ''currency'', ''total'', ''po_number''}"
  then have "k \<notin> fst ` set r" using assms(2) by (auto simp: canonical_items_def)
  then have "map_of r k = None" by (simp add: map_of_eq_None_iff)
  then show "rec_get r k = None" by (simp add: rec_get_def)
qed

lemma canonical_synonym_stage:
  assumes "distinct (map fst r)" "set r = canonical_items v dt cu t p"
  shows "synonym_stage r =
     empty_result(''vendor'' \<mapsto> v, ''date'' \<mapsto> dt, ''currency'' \<mapsto> cu, ''total'' \<mapsto> t)"
proof -
  have cl: "\<forall>kv \<in> set r. lower (strip (fst kv)) = fst kv"
    using assms(2) canonical_keys_clean by (auto simp: canonical_items_def)
  note lm = lower_map_clean[OF cl assms(1)]
  note g = canonical_rec_get[OF assms]
  show ?thesis
    by (simp add: synonym_stage_def SYNONYMS_def lm g)
qed

lemma label_only_empty: "\<not> label_only []"
  by code_simp

lemma canonical_stage_values:
  assumes "distinct (map fst r)" "set r = canonical_items v dt cu t p"
  shows "synonym_stage r ''vendor'' = Some v" "synonym_stage r ''date'' = Some dt"
    "synonym_stage r ''currency'' = Some cu" "synonym_stage r ''total'' = Some t"
    "synonym_stage r ''po_number'' = Some []"
  by (simp_all add: canonical_synonym_stage[OF assms] empty_result_def FIELDS_def)

lemma sanitize_vendor_eval:
  assumes "S ''vendor'' = Some v"
  shows "sanitize_vendor S = Inr (if v \<noteq> [] \<and> label_only v then S(''vendor'' \<mapsto> []) else S)"
  using assms by (simp add: sanitize_vendor_def item_def bnd_def)

lemma sanitize_po_empty:
  assumes "c ''po_number'' = Some []"
  shows "sanitize_po c = Inr c"
  using assms by (simp add: sanitize_po_def item_def bnd_def)

lemma normalize_record_no_raw:
  assumes "r \<noteq> []" "rec_get r ''_raw'' = None" "sanitize_vendor (synonym_stage r) = Inr c"
    "sanitize_po c = Inr c'"
  shows "normalize_record (Some r) = Inr c'"
  using assms by (simp add: normalize_record_def bnd_def)

lemma canonical_normalize:
  assumes "distinct (map fst r)" "set r = canonical_items v dt cu t p"
  shows "\<exists>c. normalize_record (Some r) = Inr c \<and>
     c ''vendor'' = Some (if label_only v then [] else v) \<and> c ''date'' = Some dt \<and>
     c ''currency'' = Some cu \<and> c ''total'' = Some t \<and> c ''po_number'' = Some []"
proof -
  note S = canonical_stage_values[OF assms]
  have "(''vendor'', Some v) \<in> set r" unfolding assms(2) canonical_items_def by (rule insertI1)
  then have ne: "r \<noteq> []" by (cases r) simp_all
  have raw: "rec_get r ''_raw'' = None" by (rule canonical_rec_get(6)[OF assms]) simp
  show ?thesis
  proof (cases "label_only v")
    case True
    then have v: "v \<noteq> []" using label_only_empty by auto
    let ?c = "(synonym_stage r)(''vendor'' \<mapsto> [])"
    have sv: "sanitize_vendor (synonym_stage r) = Inr ?c"
      using sanitize_vendor_eval[where S="synonym_stage r" and v=v, OF S(1)] True v by simp
    have p: "?c ''po_number'' = Some []" using S(5) by simp
    have "normalize_record (Some r) = Inr ?c"
      by (rule normalize_record_no_raw[OF ne raw sv sanitize_po_empty[where c="?c", OF p]])
    moreover have "?c ''vendor'' = Some []" by simp
    moreover have "?c ''date'' = Some dt" using S(2) by simp
    moreover have "?c ''currency'' = Some cu" using S(3) by simp
    moreover have "?c ''total'' = Some t" using S(4) by simp
    ultimately show ?thesis using True p by (intro exI[of _ ?c]) simp
  next
    case False
    have sv: "sanitize_vendor (synonym_stage r) = Inr (synonym_stage r)"
      using sanitize_vendor_eval[where S="synonym_stage r" and v=v, OF S(1)] False by simp
    have "normalize_record (Some r) = Inr (synonym_stage r)"
      by (rule normalize_record_no_raw[OF ne raw sv sanitize_po_empty[where c="synonym_stage r", OF S(5)]])
    then show ?thesis using False S by (intro exI[of _ "synonym_stage r"]) simp
  qed
qed

lemma normalize_C4_source:
  "map_sum id (\<lambda>c. map c FIELDS) (normalize_record C4_source) =
     Inr [Some ''Seller:'', Some [], Some [], Some [], Some ''123456'']"
  by code_simp

lemma normalize_C4_record:
  "map_sum id (\<lambda>c. map c FIELDS) (normalize_record C4_record) =
     Inr [Some [], Some [], Some [], Some [], Some []]"
  by code_simp

lemma label_only_C4: "\<not> label_only ''Acme Corp''"
  by code_simp

lemma C4_plain_canonical:
  "distinct (map fst C4_plain)"
  "set C4_plain = canonical_items ''Acme Corp'' ''2024-01-05'' ''USD'' ''10.00'' ''123456''"
  by (simp_all add: C4_plain_def canonical_items_def)

section \<open>The claims\<close>

text \<open>
  C3.  For every raw record, be it absent, empty, or a dictionary of strings and \<open>None\<close>
  values with or without a raw text, \<open>_normalize_record\<close> raises no exception and
  returns a dictionary whose keys are exactly the five canonical fields \<open>vendor\<close>,
  \<open>date\<close>, \<open>currency\<close>, \<open>total\<close> and \<open>po_number\<close>.
\<close>

theorem C3_normalize_record_total:
  "\<exists>c. normalize_record rec = Inr c \<and>
       dom c = {''vendor'', ''date'', ''currency'', ''total'', ''po_number''}"
  using normalize_record_ok[of rec] by (simp add: FIELDS_def)

text \<open>
  C2 (as amended).  Whenever the resolved \<open>po_number\<close> values of the invoice and of the
  purchase order are \<open>PO-000123456\<close> and \<open>123456\<close>, \<open>compare_records\<close> emits the
  \<open>po_number\<close> row with status \<open>mismatch\<close>, and no \<open>po_number\<close> row with another status:
  the pattern captures every digit of the run, so the two identifier cores are
  \<open>000123456\<close> and \<open>123456\<close>, which differ as strings.
\<close>

theorem C2_po_number_cores_differ:
  assumes "resolved inv_rec ''po_number'' = Inr ''PO-000123456''"
    and "resolved po_rec ''po_number'' = Inr ''123456''"
  shows "id_core ''PO-000123456'' = Some ''000123456'' \<and> id_core ''123456'' = Some ''123456'' \<and>
    (\<exists>rows n. compare_records inv_rec po_rec = Inr (rows, n) \<and>
       \<lparr>field = ''po_number'', invoice = ''PO-000123456'', po = ''123456'', status = Mismatch\<rparr> \<in> set rows \<and>
       (\<forall>r \<in> set rows. field r = ''po_number'' \<longrightarrow> status r = Mismatch))"
proof -
  from resolved_row_status[OF canonical_candidates(5) assms _ field_status_C2]
  obtain rows n where "compare_records inv_rec po_rec = Inr (rows, n)"
    "\<lparr>field = ''po_number'', invoice = ''PO-000123456'', po = ''123456'', status = Mismatch\<rparr> \<in> set rows"
    "\<forall>r \<in> set rows. field r = ''po_number'' \<longrightarrow> status r = Mismatch"
    by auto
  then have "\<exists>rows n. compare_records inv_rec po_rec = Inr (rows, n) \<and>
       \<lparr>field = ''po_number'', invoice = ''PO-000123456'', po = ''123456'', status = Mismatch\<rparr> \<in> set rows \<and>
       (\<forall>r \<in> set rows. field r = ''po_number'' \<longrightarrow> status r = Mismatch)" by blast
  with id_core_C2 show ?thesis by (intro conjI)
qed

theorem C2_po_number_cores_differ_witness:
  "resolved C2_invoice ''po_number'' = Inr ''PO-000123456'' \<and>
   resolved C2_po ''po_number'' = Inr ''123456'' \<and>
   (\<exists>rows n. compare_records C2_invoice C2_po = Inr (rows, n) \<and>
       \<lparr>field = ''po_number'', invoice = ''PO-000123456'', po = ''123456'', status = Mismatch\<rparr> \<in> set rows)"
proof -
  from C2_po_number_cores_differ[OF resolved_C2] have
    "\<exists>rows n. compare_records C2_invoice C2_po = Inr (rows, n) \<and>
       \<lparr>field = ''po_number'', invoice = ''PO-000123456'', po = ''123456'', status = Mismatch\<rparr> \<in> set rows"
    by blast
  with resolved_C2 show ?thesis by (intro conjI)
qed

theorem C2_counterexample:
  "resolved C2_invoice ''po_number'' = Inr ''PO-000123456'' \<and>
   resolved C2_po ''po_number'' = Inr ''123456'' \<and>
   compare_records C2_invoice C2_po =
     Inr ([\<lparr>field = ''po_number'', invoice = ''PO-000123456'', po = ''123456'', status = Mismatch\<rparr>], 1)"
  using resolved_C2 compare_C2 by (intro conjI)

text \<open>
  C10.  When both resolved vendor values are non-empty and company-name normalization,
  applied as \<open>compare_records\<close> applies it (to the whitespace-collapsed, lower-cased value),
  reduces one of them to the empty string, the vendor row is emitted with status
  \<open>missing\<close>, and no vendor row has another status.
\<close>

theorem C10_vendor_normalized_empty_is_missing:
  assumes "resolved inv_rec ''vendor'' = Inr iv" and "resolved po_rec ''vendor'' = Inr pv"
    and "iv \<noteq> []" and "pv \<noteq> []"
    and "normalize_company (lower (clean iv)) = [] \<or> normalize_company (lower (clean pv)) = []"
  shows "\<exists>rows n. compare_records inv_rec po_rec = Inr (rows, n) \<and>
       \<lparr>field = ''vendor'', invoice = iv, po = pv, status = Missing\<rparr> \<in> set rows \<and>
       (\<forall>r \<in> set rows. field r = ''vendor'' \<longrightarrow> status r = Missing)"
proof -
  from resolved_row_status[OF canonical_candidates(1) assms(1,2) disjI1[OF assms(3)]
      field_status_vendor_missing[OF assms(5)]]
  obtain rows n where "compare_records inv_rec po_rec = Inr (rows, n)"
    "\<lparr>field = ''vendor'', invoice = iv, po = pv, status = Missing\<rparr> \<in> set rows"
    "\<forall>r \<in> set rows. field r = ''vendor'' \<longrightarrow> status r = Missing"
    by auto
  then show ?thesis by blast
qed

theorem C10_vendor_normalized_empty_is_missing_witness:
  "resolved C10_invoice ''vendor'' = Inr ''Inc.'' \<and> resolved C10_po ''vendor'' = Inr ''Acme'' \<and>
   normalize_company (lower (clean ''Inc.'')) = [] \<and>
   (\<exists>rows n. compare_records C10_invoice C10_po = Inr (rows, n) \<and>
       \<lparr>field = ''vendor'', invoice = ''Inc.'', po = ''Acme'', status = Missing\<rparr> \<in> set rows)"
proof -
  have ne: "''Inc.'' \<noteq> []" "''Acme'' \<noteq> []" by simp_all
  from C10_vendor_normalized_empty_is_missing[OF resolved_C10 ne disjI1[OF normalize_company_Inc]]
  have "\<exists>rows n. compare_records C10_invoice C10_po = Inr (rows, n) \<and>
       \<lparr>field = ''vendor'', invoice = ''Inc.'', po = ''Acme'', status = Missing\<rparr> \<in> set rows"
    by blast
  with resolved_C10 normalize_company_Inc show ?thesis by (intro conjI)
qed

text \<open>
  C1 (as amended).  For the invoice record \<open>{"Seller": "Acme Inc.", "Total": "$1,200.00",
  "Invoice Number": "INV-000987654"}\<close> and the purchase-order record \<open>{"vendor": "ACME",
  "amount due": "1200.00", "po": "987654"}\<close>, \<open>compare_records\<close> produces five rows, in
  this order: \<open>amount due\<close> and \<open>po\<close> with status \<open>missing\<close> (raw keys of the purchase
  order that the invoice lacks), \<open>po_number\<close> with status \<open>mismatch\<close> (the cores are
  \<open>000987654\<close> and \<open>987654\<close>), \<open>total\<close> and \<open>vendor\<close> with status \<open>match\<close>; the mismatch
  count is 1.
\<close>

theorem C1_end_to_end:
  "compare_records C1_invoice C1_po =
     Inr ([\<lparr>field = ''amount due'', invoice = [], po = ''1200.00'', status = Missing\<rparr>,
           \<lparr>field = ''po'', invoice = [], po = ''987654'', status = Missing\<rparr>,
           \<lparr>field = ''po_number'', invoice = ''INV-000987654'', po = ''987654'', status = Mismatch\<rparr>,
           \<lparr>field = ''total'', invoice = ''$1,200.00'', po = ''1200.00'', status = Match\<rparr>,
           \<lparr>field = ''vendor'', invoice = ''Acme Inc.'', po = ''ACME'', status = Match\<rparr>], 1) \<and>
   id_core ''INV-000987654'' = Some ''000987654'' \<and> id_core ''987654'' = Some ''987654''"
  using compare_C1 id_core_C1 by (intro conjI)

theorem C1_counterexample:
  "compare_records C1_invoice C1_po \<noteq>
     Inr ([\<lparr>field = ''po_number'', invoice = ''INV-000987654'', po = ''987654'', status = Match\<rparr>,
           \<lparr>field = ''total'', invoice = ''$1,200.00'', po = ''1200.00'', status = Match\<rparr>,
           \<lparr>field = ''vendor'', invoice = ''Acme Inc.'', po = ''ACME'', status = Match\<rparr>], 0) \<and>
   (case compare_records C1_invoice C1_po of
      Inl e \<Rightarrow> False
    | Inr out \<Rightarrow>
        map (\<lambda>r. (field r, status r)) (fst out) =
          [(''amount due'', Missing), (''po'', Missing), (''po_number'', Mismatch),
           (''total'', Match), (''vendor'', Match)] \<and> snd out = 1)"
  by (simp add: compare_C1)

text \<open>
  C7.  The claim puts the tolerance on the two amounts: the \<open>total\<close> row is a \<open>match\<close>
  when they differ by less than 0.01 and a \<open>mismatch\<close> otherwise.  \<open>compare_records\<close>
  takes the difference in binary floating point and misses this at the boundary.  The
  totals \<open>0.06\<close> and \<open>0.05\<close> normalize to themselves and differ by exactly 0.01, yet the
  row has status \<open>match\<close>, with mismatch count 0; the totals \<open>0.02\<close> and \<open>0.01\<close>,
  with the same difference, give \<open>mismatch\<close>.
\<close>

theorem C7_one_cent_gap_is_match:
  "compare_records C7_invoice C7_po =
     Inr ([\<lparr>field = ''total'', invoice = ''0.06'', po = ''0.05'', status = Match\<rparr>], 0) \<and>
   normalize_amount ''0.06'' = ''0.06'' \<and> normalize_amount ''0.05'' = ''0.05'' \<and>
   \<bar>decimal_value ''0.06'' - decimal_value ''0.05''\<bar> = 1 / 100 \<and>
   field_status ''total'' ''0.02'' ''0.01'' = Mismatch \<and>
   normalize_amount ''0.02'' = ''0.02'' \<and> normalize_amount ''0.01'' = ''0.01'' \<and>
   \<bar>decimal_value ''0.02'' - decimal_value ''0.01''\<bar> = 1 / 100"
  using compare_C7 amount_006 amount_005 decimal_gap_C7 total_status_c002_c001 amount_c002
    amount_c001 decimal_gap_c002_c001
  by (simp add: field_status_total)

text \<open>
  C4 (as amended).  A canonical record presented as a raw record, that is a dictionary
  whose keys are exactly the five canonical field names, with values \<open>v\<close>, \<open>dt\<close>, \<open>cu\<close>,
  \<open>t\<close> and \<open>p\<close>: \<open>_normalize_record\<close> returns \<open>date\<close>, \<open>currency\<close> and \<open>total\<close> unchanged,
  and \<open>vendor\<close> unchanged unless it is only a label (\<open>vendor\<close> or \<open>seller\<close>, in any case,
  with an optional colon and surrounding white space), which the sanity cleanup
  replaces by the empty string.  Nothing is said of \<open>po_number\<close>: the key \<open>po_number\<close> is
  not among the synonyms of the field \<open>po_number\<close>, the only field whose own name is
  missing from its list.  The counterexample normalizes a raw text to the canonical
  record with vendor \<open>Seller:\<close> and identifier \<open>123456\<close>, and that record to one whose
  five values are all empty.
\<close>

theorem C4_canonical_record_renormalized:
  assumes "distinct (map fst r)" and "set r = canonical_items v dt cu t p"
  shows "\<exists>c. normalize_record (Some r) = Inr c \<and>
     c ''vendor'' = Some (if label_only v then [] else v) \<and> c ''date'' = Some dt \<and>
     c ''currency'' = Some cu \<and> c ''total'' = Some t"
  using canonical_normalize[OF assms] by blast

theorem C4_canonical_record_renormalized_witness:
  "distinct (map fst C4_plain) \<and>
   set C4_plain = canonical_items ''Acme Corp'' ''2024-01-05'' ''USD'' ''10.00'' ''123456'' \<and>
   (\<exists>c. normalize_record (Some C4_plain) = Inr c \<and>
     c ''vendor'' = Some ''Acme Corp'' \<and> c ''date'' = Some ''2024-01-05'' \<and>
     c ''currency'' = Some ''USD'' \<and> c ''total'' = Some ''10.00'')"
  using C4_canonical_record_renormalized[OF C4_plain_canonical] C4_plain_canonical label_only_C4
  by simp

theorem C4_counterexample:
  "map_sum id (\<lambda>c. map c FIELDS) (normalize_record C4_source) =
     Inr [Some ''Seller:'', Some [], Some [], Some [], Some ''123456''] \<and>
   map_sum id (\<lambda>c. map c FIELDS) (normalize_record C4_record) =
     Inr [Some [], Some [], Some [], Some [], Some []]"
  using normalize_C4_source normalize_C4_record by (intro conjI)

end
